theory Spec2Isabelle
  imports Main "HOL-Library.Word" "HOL-Library.Signed_Division"
begin

unbundle bit_operations_syntax

section \<open>Geometry: image.Point and image.Rectangle\<close>

text \<open>
  Go's \<^verbatim>\<open>image.Point\<close> and \<^verbatim>\<open>image.Rectangle\<close>. Coordinates and pixel counters are
  Go \<^verbatim>\<open>int\<close>s (64 bits); they are modelled as unbounded integers, since every
  coordinate the scans compute lies within two steps of the raster's bounds and a
  counter never exceeds the number of pixels of a line. The sums and hashes, which are
  \<^verbatim>\<open>uint32\<close> and \<^verbatim>\<open>uint64\<close> and may wrap around, are words.
\<close>

datatype point = Pt (X: int) (Y: int)

datatype rectangle = Rectangle (Min_r: point) (Max_r: point)

definition Add :: "point \<Rightarrow> point \<Rightarrow> point" where
  "Add p q = Pt (X p + X q) (Y p + Y q)"

definition Sub :: "point \<Rightarrow> point \<Rightarrow> point" where
  "Sub p q = Pt (X p - X q) (Y p - Y q)"

definition In :: "point \<Rightarrow> rectangle \<Rightarrow> bool" where
  "In p r = (X (Min_r r) \<le> X p \<and> X p < X (Max_r r) \<and>
             Y (Min_r r) \<le> Y p \<and> Y p < Y (Max_r r))"

text \<open>\<^verbatim>\<open>image.Rect\<close> swaps the coordinates of an axis given in the wrong order.\<close>

definition Rect :: "int \<Rightarrow> int \<Rightarrow> int \<Rightarrow> int \<Rightarrow> rectangle" where
  "Rect x0 y0 x1 y1 =
     Rectangle (Pt (if x0 > x1 then x1 else x0) (if y0 > y1 then y1 else y0))
               (Pt (if x0 > x1 then x0 else x1) (if y0 > y1 then y0 else y1))"

section \<open>The raster\<close>

text \<open>
  An \<^verbatim>\<open>image.Image\<close> value as the package sees it: its \<^verbatim>\<open>Bounds()\<close>, the luminance
  \<^verbatim>\<open>color.GrayModel.Convert(img.At(x, y)).(color.Gray).Y\<close> of each pixel (the type
  assertion to \<^verbatim>\<open>color.Gray\<close> always succeeds for the gray model), and the two facts
  about its dynamic type that the code asks for: the \<^verbatim>\<open>SubImage\<close> method, present or
  not, and whether the type implements \<^verbatim>\<open>image.RGBA64Image\<close>. The type \<open>'v\<close> is the
  type of the views \<^verbatim>\<open>SubImage\<close> returns.
\<close>

record 'v image =
  bounds :: rectangle
  GrayAt :: "int \<Rightarrow> int \<Rightarrow> 8 word"
  SubImage :: "(rectangle \<Rightarrow> 'v) option"
  isRGBA64Image :: bool

datatype error = Errorf string

datatype panic = DivideByZero | NilDereference | NegativeShift

section \<open>Constants\<close>

definition grayDarknessLimit :: nat where "grayDarknessLimit = 128"
definition minDistinctBitsBetweenLines :: nat where "minDistinctBitsBetweenLines = 1"
definition maxDistinctBitsBetweenLines :: nat where "maxDistinctBitsBetweenLines = 3"
definition blackHighContrastThreshold :: nat where "blackHighContrastThreshold = 30"
definition whiteHighContrastThreshold :: nat where "whiteHighContrastThreshold = 230"
definition highContrastPercent :: int where "highContrastPercent = 12"

section \<open>Crop\<close>

text \<open>
  Go returns the pair \<^verbatim>\<open>(image.Image, error)\<close>; \<open>None\<close> is \<^verbatim>\<open>nil\<close> in either
  component.
\<close>

definition Crop :: "'v image \<Rightarrow> rectangle \<Rightarrow> 'v option \<times> error option" where
  "Crop img r =
     (case SubImage img of
        None \<Rightarrow> (None, Some (Errorf ''image does not support cropping''))
      | Some simg \<Rightarrow> (Some (simg r), None))"

section \<open>Hash comparator\<close>

text \<open>\<^verbatim>\<open>bits.OnesCount32\<close> and \<^verbatim>\<open>bits.OnesCount64\<close>: the number of one bits.\<close>

definition OnesCount32 :: "32 word \<Rightarrow> nat" where
  "OnesCount32 w = length (filter (bit w) [0..<32])"

definition OnesCount64 :: "64 word \<Rightarrow> nat" where
  "OnesCount64 w = length (filter (bit w) [0..<64])"

definition hashesMatch :: "32 word \<Rightarrow> 32 word \<Rightarrow> 32 word \<Rightarrow> 32 word \<Rightarrow> bool" where
  "hashesMatch prevAvg prevHighContrast avgHash highContrastHash =
     (if (prevAvg XOR 0xFFFFFFFF = 0 \<or> prevAvg XOR 0 = 0) \<and>
         OnesCount32 (avgHash XOR prevAvg) + OnesCount32 (highContrastHash XOR prevHighContrast)
           \<ge> minDistinctBitsBetweenLines
      then False
      else if OnesCount32 (avgHash XOR prevAvg) + OnesCount32 (highContrastHash XOR prevHighContrast)
           \<ge> maxDistinctBitsBetweenLines
      then False
      else True)"

text \<open>
  Simplified profile: the break condition of the loop of \<^verbatim>\<open>findBorderUsingAvgHash\<close>,
  \<^verbatim>\<open>bits.OnesCount64(hash^prev) >= minDistinctBitsBetweenLines\<close>.
\<close>

definition hashesDiffer64 :: "64 word \<Rightarrow> 64 word \<Rightarrow> bool" where
  "hashesDiffer64 prev hash = (OnesCount64 (hash XOR prev) \<ge> minDistinctBitsBetweenLines)"

subsection \<open>The comparator as the specification words it\<close>

definition hammingDistance :: "'a::len word \<Rightarrow> 'a word \<Rightarrow> nat" where
  "hammingDistance a b = length (filter (\<lambda>n. bit a n \<noteq> bit b n) [0..<LENGTH('a)])"

definition fullySaturated :: "'a::len word \<Rightarrow> bool" where
  "fullySaturated h = (list_all (\<lambda>n. \<not> bit h n) [0..<LENGTH('a)] \<or> list_all (bit h) [0..<LENGTH('a)])"

definition spec_differentExtended :: "32 word \<Rightarrow> 32 word \<Rightarrow> 32 word \<Rightarrow> 32 word \<Rightarrow> bool" where
  "spec_differentExtended prevBase prevContrast base contrast =
     ((fullySaturated prevBase \<and>
         hammingDistance prevBase base + hammingDistance prevContrast contrast \<ge> 1)
      \<or> hammingDistance prevBase base + hammingDistance prevContrast contrast \<ge> 3)"

definition spec_differentSimplified :: "64 word \<Rightarrow> 64 word \<Rightarrow> bool" where
  "spec_differentSimplified prev hash = (hammingDistance prev hash \<ge> 1)"

section \<open>Naive edge scanner\<close>

definition pointInScanCorner :: "rectangle \<Rightarrow> point \<Rightarrow> point" where
  "pointInScanCorner rect dir =
     (if X dir < 0 \<or> Y dir < 0 then Sub (Max_r rect) (Pt 1 1) else Min_r rect)"

text \<open>
  The loops take any \<^verbatim>\<open>image.Point\<close> as direction, and with the direction \<open>(0, 0)\<close>
  they would not end: they are partial functions, \<open>None\<close> meaning that the loop never
  returns. The loop variable \<^verbatim>\<open>spt\<close> is the argument \<open>pt\<close> of the recursion.
\<close>

partial_function (option) scanLineForNonWhitespace ::
  "'v image \<Rightarrow> point \<Rightarrow> point \<Rightarrow> bool option" where
  "scanLineForNonWhitespace img pt scan =
     (if In pt (bounds img) then
        (if unat (GrayAt img (X pt) (Y pt)) \<le> grayDarknessLimit then Some True
         else scanLineForNonWhitespace img (Add pt scan) scan)
      else Some False)"

declare scanLineForNonWhitespace.simps [code]

text \<open>
  The loop of \<^verbatim>\<open>findBorder\<close>. Beside the final \<^verbatim>\<open>dpt\<close> it returns the number of lines
  it has scanned, a ghost value that the Go code does not compute and that
  \<open>findBorder\<close> drops: it is there to state how far a scan goes.
\<close>

partial_function (option) findBorderLoop ::
  "'v image \<Rightarrow> point \<Rightarrow> point \<Rightarrow> nat \<Rightarrow> (point \<times> nat) option" where
  "findBorderLoop img dir dpt n =
     (case scanLineForNonWhitespace img dpt (Pt (Y dir) (X dir)) of
        None \<Rightarrow> None
      | Some nonWhite \<Rightarrow>
          if \<not> nonWhite then
            (if \<not> In (Add dpt dir) (bounds img)
             then Some (pointInScanCorner (bounds img) dir, Suc n)
             else findBorderLoop img dir (Add dpt dir) (Suc n))
          else Some (dpt, Suc n))"

declare findBorderLoop.simps [code]

definition findBorder :: "'v image \<Rightarrow> point \<Rightarrow> point option" where
  "findBorder img dir =
     (case findBorderLoop img dir (pointInScanCorner (bounds img) dir) 0 of
        None \<Rightarrow> None
      | Some (dpt, n) \<Rightarrow> Some (if X dir < 0 \<or> Y dir < 0 then Sub dpt dir else dpt))"

definition Bounds :: "'v image \<Rightarrow> rectangle option" where
  "Bounds img =
     (case findBorder img (Pt 1 0) of None \<Rightarrow> None | Some left \<Rightarrow>
      case findBorder img (Pt (- 1) 0) of None \<Rightarrow> None | Some right \<Rightarrow>
      case findBorder img (Pt 0 1) of None \<Rightarrow> None | Some top_pt \<Rightarrow>
      case findBorder img (Pt 0 (- 1)) of None \<Rightarrow> None | Some bottom_pt \<Rightarrow>
      Some (Rect (X left) (Y top_pt) (X right) (Y bottom_pt)))"

section \<open>Line hasher, extended profile\<close>

text \<open>
  The local variables of the loop of \<^verbatim>\<open>lineAverageHash\<close>; \<open>idx\<close> is the counter
  \<^verbatim>\<open>i\<close>. The counters \<^verbatim>\<open>lows\<close> and \<^verbatim>\<open>highs\<close> are \<^verbatim>\<open>float64\<close> in Go and only ever hold
  whole numbers; \<^verbatim>\<open>partialSum\<close> is a \<^verbatim>\<open>uint32\<close> and wraps around.
\<close>

record hashState =
  idx :: int
  lows :: nat
  highs :: nat
  partialSum :: "32 word"
  avgHash :: "32 word"
  highContrastHash :: "32 word"

definition initialHashState :: hashState where
  "initialHashState =
     \<lparr>idx = 0, lows = 0, highs = 0, partialSum = 0, avgHash = 0, highContrastHash = 0\<rparr>"

text \<open>
  \<^verbatim>\<open>n |= (1 << pos)\<close> with \<^verbatim>\<open>pos\<close> an \<^verbatim>\<open>int\<close>: Go panics on a negative shift count, and
  a count of 32 or more shifts the bit out.
\<close>

definition setBit32 :: "32 word \<Rightarrow> int \<Rightarrow> panic + 32 word" where
  "setBit32 n pos = (if pos < 0 then Inl NegativeShift else Inr (n OR push_bit (nat pos) 1))"

definition setBit64 :: "64 word \<Rightarrow> int \<Rightarrow> panic + 64 word" where
  "setBit64 n pos = (if pos < 0 then Inl NegativeShift else Inr (n OR push_bit (nat pos) 1))"

text \<open>
  The test \<^verbatim>\<open>lows > float64(windowSize)*highContrastPercent/100\<close>. The left side is a
  whole number \<open>c\<close>, and \<^verbatim>\<open>float64(windowSize)*12\<close> is exact; the quotient by 100 is
  either a whole number, hence exact, or at least 1/25 away from every whole number,
  further than rounding moves it for every window size below \<open>2 ^ 45\<close>. So the test is
  the exact comparison \<open>100 * c > 12 * windowSize\<close>.
\<close>

definition exceedsHighContrast :: "nat \<Rightarrow> int \<Rightarrow> bool" where
  "exceedsHighContrast c windowSize = (int c * 100 > windowSize * highContrastPercent)"

text \<open>
  The block \<^verbatim>\<open>if i%windowSize == windowSize-1 { ... }\<close> that closes a window. Go's
  \<^verbatim>\<open>%\<close> and \<^verbatim>\<open>/\<close> truncate towards zero (\<open>smod\<close>, \<open>sdiv\<close>) and panic on a zero
  divisor.
\<close>

definition closeWindow :: "int \<Rightarrow> hashState \<Rightarrow> panic + hashState" where
  "closeWindow windowSize s =
     (if windowSize = 0 then Inl DivideByZero
      else if idx s smod windowSize = windowSize - 1 then
        (if partialSum s > word_of_int windowSize * word_of_nat grayDarknessLimit then
           (case setBit32 (avgHash s) (idx s sdiv windowSize) of
              Inl e \<Rightarrow> Inl e
            | Inr a \<Rightarrow>
                if exceedsHighContrast (lows s) windowSize then
                  (case setBit32 (highContrastHash s) (idx s sdiv windowSize) of
                     Inl e \<Rightarrow> Inl e
                   | Inr h \<Rightarrow> Inr (s\<lparr>avgHash := a, highContrastHash := h,
                                      partialSum := 0, lows := 0, highs := 0\<rparr>))
                else Inr (s\<lparr>avgHash := a, partialSum := 0, lows := 0, highs := 0\<rparr>))
         else
           (if exceedsHighContrast (highs s) windowSize then
              (case setBit32 (highContrastHash s) (idx s sdiv windowSize) of
                 Inl e \<Rightarrow> Inl e
               | Inr h \<Rightarrow> Inr (s\<lparr>highContrastHash := h,
                                  partialSum := 0, lows := 0, highs := 0\<rparr>))
            else Inr (s\<lparr>partialSum := 0, lows := 0, highs := 0\<rparr>)))
      else Inr s)"

text \<open>The rest of the loop body: add the pixel to the running window.\<close>

definition addPixel :: "8 word \<Rightarrow> hashState \<Rightarrow> hashState" where
  "addPixel gray s =
     s\<lparr>partialSum := partialSum s + ucast gray,
       highs := (if unat gray > whiteHighContrastThreshold then highs s + 1 else highs s),
       lows := (if unat gray < blackHighContrastThreshold then lows s + 1 else lows s),
       idx := idx s + 1\<rparr>"

partial_function (option) lineLoop ::
  "'v image \<Rightarrow> point \<Rightarrow> int \<Rightarrow> point \<Rightarrow> hashState \<Rightarrow> (panic + hashState) option" where
  "lineLoop img scan windowSize spt s =
     (if In spt (bounds img) then
        (case closeWindow windowSize s of
           Inl e \<Rightarrow> Some (Inl e)
         | Inr s' \<Rightarrow>
             lineLoop img scan windowSize (Add spt scan)
               (addPixel (GrayAt img (X spt) (Y spt)) s'))
      else Some (Inr s))"

declare lineLoop.simps [code]

definition lineAverageHash ::
  "'v image \<Rightarrow> point \<Rightarrow> point \<Rightarrow> (panic + 32 word \<times> 32 word) option" where
  "lineAverageHash img pt scan =
     (let len = (if X scan \<noteq> 0 then X (Max_r (bounds img)) else Y (Max_r (bounds img)));
          windowSize = len sdiv 32
      in case lineLoop img scan windowSize pt initialHashState of
           None \<Rightarrow> None
         | Some (Inl e) \<Rightarrow> Some (Inl e)
         | Some (Inr s) \<Rightarrow> Some (Inr (avgHash s, highContrastHash s)))"

section \<open>Boundary locator, extended profile\<close>

text \<open>
  The loop of \<^verbatim>\<open>findBorderUsingAvgHash\<close>, with the previous line's hashes and \<^verbatim>\<open>dpt\<close> as
  its state, and the same ghost count of the lines hashed inside the loop.
\<close>

partial_function (option) avgHashLoop ::
  "'v image \<Rightarrow> point \<Rightarrow> 32 word \<Rightarrow> 32 word \<Rightarrow> point \<Rightarrow> nat \<Rightarrow> (panic + point \<times> nat) option" where
  "avgHashLoop img dir prevAvg prevHighContrast dpt n =
     (case lineAverageHash img dpt (Pt (Y dir) (X dir)) of
        None \<Rightarrow> None
      | Some (Inl e) \<Rightarrow> Some (Inl e)
      | Some (Inr (curAvg, curHighContrast)) \<Rightarrow>
          if \<not> hashesMatch prevAvg prevHighContrast curAvg curHighContrast
          then Some (Inr (dpt, Suc n))
          else if \<not> In (Add dpt dir) (bounds img)
          then Some (Inr (pointInScanCorner (bounds img) dir, Suc n))
          else avgHashLoop img dir curAvg curHighContrast (Add dpt dir) (Suc n))"

declare avgHashLoop.simps [code]

definition findBorderUsingAvgHash :: "'v image \<Rightarrow> point \<Rightarrow> (panic + point) option" where
  "findBorderUsingAvgHash img dir =
     (case lineAverageHash img (pointInScanCorner (bounds img) dir) (Pt (Y dir) (X dir)) of
        None \<Rightarrow> None
      | Some (Inl e) \<Rightarrow> Some (Inl e)
      | Some (Inr (prevAvg, prevHighContrast)) \<Rightarrow>
          (case avgHashLoop img dir prevAvg prevHighContrast
                  (Add (pointInScanCorner (bounds img) dir) dir) 0 of
             None \<Rightarrow> None
           | Some (Inl e) \<Rightarrow> Some (Inl e)
           | Some (Inr (dpt, n)) \<Rightarrow>
               Some (Inr (if X dir < 0 \<or> Y dir < 0 then Sub dpt dir else dpt))))"

text \<open>Sequencing of calls that may panic or not return.\<close>

definition andThen ::
  "(panic + 'a) option \<Rightarrow> ('a \<Rightarrow> (panic + 'b) option) \<Rightarrow> (panic + 'b) option" where
  "andThen m f = (case m of None \<Rightarrow> None | Some (Inl e) \<Rightarrow> Some (Inl e) | Some (Inr x) \<Rightarrow> f x)"

definition BoundsHash :: "'v image \<Rightarrow> (panic + rectangle) option" where
  "BoundsHash img =
     andThen (findBorderUsingAvgHash img (Pt 1 0)) (\<lambda>left.
     andThen (findBorderUsingAvgHash img (Pt (- 1) 0)) (\<lambda>right.
     andThen (findBorderUsingAvgHash img (Pt 0 1)) (\<lambda>top_pt.
     andThen (findBorderUsingAvgHash img (Pt 0 (- 1))) (\<lambda>bottom_pt.
     Some (Inr (Rect (X left) (Y top_pt) (X right) (Y bottom_pt)))))))"

definition Auto :: "'v image \<Rightarrow> (panic + 'v option \<times> error option) option" where
  "Auto img =
     andThen (BoundsHash img) (\<lambda>rect.
       case Crop img rect of
         (cropped, err) \<Rightarrow>
           if err \<noteq> None then Some (Inr (None, err)) else Some (Inr (cropped, None)))"

section \<open>Simplified profile\<close>

text \<open>
  The second variant of the package: one 64-bit hash per line and no contrast hash.
  Its functions carry the suffix \<open>64\<close>; \<^verbatim>\<open>Crop\<close>, \<^verbatim>\<open>Bounds\<close>, \<^verbatim>\<open>findBorder\<close>,
  \<^verbatim>\<open>pointInScanCorner\<close> and \<^verbatim>\<open>scanLineForNonWhitespace\<close> are the same in both.
\<close>

record hashState64 =
  idx64 :: int
  partialSum64 :: "32 word"
  hash64 :: "64 word"

definition initialHashState64 :: hashState64 where
  "initialHashState64 = \<lparr>idx64 = 0, partialSum64 = 0, hash64 = 0\<rparr>"

definition closeWindow64 :: "int \<Rightarrow> hashState64 \<Rightarrow> panic + hashState64" where
  "closeWindow64 windowSize s =
     (if windowSize = 0 then Inl DivideByZero
      else if idx64 s smod windowSize = windowSize - 1 then
        (if partialSum64 s > word_of_int windowSize * word_of_nat grayDarknessLimit then
           (case setBit64 (hash64 s) (idx64 s sdiv windowSize) of
              Inl e \<Rightarrow> Inl e
            | Inr h \<Rightarrow> Inr (s\<lparr>hash64 := h, partialSum64 := 0\<rparr>))
         else Inr (s\<lparr>partialSum64 := 0\<rparr>))
      else Inr s)"

definition addPixel64 :: "8 word \<Rightarrow> hashState64 \<Rightarrow> hashState64" where
  "addPixel64 gray s = s\<lparr>partialSum64 := partialSum64 s + ucast gray, idx64 := idx64 s + 1\<rparr>"

partial_function (option) lineLoop64 ::
  "'v image \<Rightarrow> point \<Rightarrow> int \<Rightarrow> point \<Rightarrow> hashState64 \<Rightarrow> (panic + hashState64) option" where
  "lineLoop64 img scan windowSize spt s =
     (if In spt (bounds img) then
        (case closeWindow64 windowSize s of
           Inl e \<Rightarrow> Some (Inl e)
         | Inr s' \<Rightarrow>
             lineLoop64 img scan windowSize (Add spt scan)
               (addPixel64 (GrayAt img (X spt) (Y spt)) s'))
      else Some (Inr s))"

declare lineLoop64.simps [code]

text \<open>
  The argument is the interface value \<^verbatim>\<open>rgbimg\<close>, which is \<^verbatim>\<open>nil\<close> (\<open>None\<close>) when the
  type assertion in \<^verbatim>\<open>findBorderUsingAvgHash\<close> has failed; \<^verbatim>\<open>img.Bounds()\<close> on the nil
  interface panics.
\<close>

definition lineAverageHash64 ::
  "'v image option \<Rightarrow> point \<Rightarrow> point \<Rightarrow> (panic + 64 word) option" where
  "lineAverageHash64 rgbimg pt scan =
     (case rgbimg of
        None \<Rightarrow> Some (Inl NilDereference)
      | Some img \<Rightarrow>
          (let len = (if X scan \<noteq> 0 then X (Max_r (bounds img)) else Y (Max_r (bounds img)));
               windowSize = len sdiv 64
           in case lineLoop64 img scan windowSize pt initialHashState64 of
                None \<Rightarrow> None
              | Some (Inl e) \<Rightarrow> Some (Inl e)
              | Some (Inr s) \<Rightarrow> Some (Inr (hash64 s))))"

partial_function (option) avgHashLoop64 ::
  "'v image \<Rightarrow> 'v image option \<Rightarrow> point \<Rightarrow> 64 word \<Rightarrow> point \<Rightarrow> nat
     \<Rightarrow> (panic + point \<times> nat) option" where
  "avgHashLoop64 img rgbimg dir prev dpt n =
     (case lineAverageHash64 rgbimg dpt (Pt (Y dir) (X dir)) of
        None \<Rightarrow> None
      | Some (Inl e) \<Rightarrow> Some (Inl e)
      | Some (Inr hash) \<Rightarrow>
          if hashesDiffer64 prev hash
          then Some (Inr (dpt, Suc n))
          else if \<not> In (Add dpt dir) (bounds img)
          then Some (Inr (pointInScanCorner (bounds img) dir, Suc n))
          else avgHashLoop64 img rgbimg dir hash (Add dpt dir) (Suc n))"

declare avgHashLoop64.simps [code]

definition findBorderUsingAvgHash64 :: "'v image \<Rightarrow> point \<Rightarrow> (panic + point) option" where
  "findBorderUsingAvgHash64 img dir =
     (let rgbimg = (if isRGBA64Image img then Some img else None) in
      case lineAverageHash64 rgbimg (pointInScanCorner (bounds img) dir) (Pt (Y dir) (X dir)) of
        None \<Rightarrow> None
      | Some (Inl e) \<Rightarrow> Some (Inl e)
      | Some (Inr prev) \<Rightarrow>
          (case avgHashLoop64 img rgbimg dir prev
                  (Add (pointInScanCorner (bounds img) dir) dir) 0 of
             None \<Rightarrow> None
           | Some (Inl e) \<Rightarrow> Some (Inl e)
           | Some (Inr (dpt, n)) \<Rightarrow>
               Some (Inr (if X dir < 0 \<or> Y dir < 0 then Sub dpt dir else dpt))))"

definition BoundsHash64 :: "'v image \<Rightarrow> (panic + rectangle) option" where
  "BoundsHash64 img =
     andThen (findBorderUsingAvgHash64 img (Pt 1 0)) (\<lambda>left.
     andThen (findBorderUsingAvgHash64 img (Pt (- 1) 0)) (\<lambda>right.
     andThen (findBorderUsingAvgHash64 img (Pt 0 1)) (\<lambda>top_pt.
     andThen (findBorderUsingAvgHash64 img (Pt 0 (- 1))) (\<lambda>bottom_pt.
     Some (Inr (Rect (X left) (Y top_pt) (X right) (Y bottom_pt)))))))"

definition Auto64 :: "'v image \<Rightarrow> (panic + 'v option \<times> error option) option" where
  "Auto64 img =
     andThen (BoundsHash64 img) (\<lambda>rect.
       case Crop img rect of
         (cropped, err) \<Rightarrow>
           if err \<noteq> None then Some (Inr (None, err)) else Some (Inr (cropped, None)))"

section \<open>Notions used to state the properties\<close>

text \<open>The point reached from \<open>p\<close> after \<open>k\<close> steps of \<open>d\<close>.\<close>

definition AddN :: "point \<Rightarrow> point \<Rightarrow> nat \<Rightarrow> point" where
  "AddN p d k = Pt (X p + int k * X d) (Y p + int k * Y d)"

text \<open>The four direction vectors that \<^verbatim>\<open>Bounds\<close> and \<^verbatim>\<open>BoundsHash\<close> pass.\<close>

definition directions :: "point set" where
  "directions = {Pt 1 0, Pt (- 1) 0, Pt 0 1, Pt 0 (- 1)}"

text \<open>
  How many points a walk from \<open>p\<close> in a unit direction \<open>d\<close> visits before it leaves
  the rectangle.
\<close>

definition runLength :: "rectangle \<Rightarrow> point \<Rightarrow> point \<Rightarrow> nat" where
  "runLength b p d =
     (if \<not> In p b then 0
      else if d = Pt 0 1 then nat (Y (Max_r b) - Y p)
      else if d = Pt 1 0 then nat (X (Max_r b) - X p)
      else if d = Pt 0 (- 1) then nat (Y p - Y (Min_r b) + 1)
      else if d = Pt (- 1) 0 then nat (X p - X (Min_r b) + 1)
      else 0)"

text \<open>The luminances of the first \<open>n\<close> pixels of the walk.\<close>

definition pixelsFrom :: "'v image \<Rightarrow> point \<Rightarrow> point \<Rightarrow> nat \<Rightarrow> 8 word list" where
  "pixelsFrom img p d n = map (\<lambda>k. GrayAt img (X (AddN p d k)) (Y (AddN p d k))) [0..<n]"

text \<open>The body of the loop of \<^verbatim>\<open>lineAverageHash\<close> run over a list of luminances.\<close>

fun lineFold :: "int \<Rightarrow> 8 word list \<Rightarrow> hashState \<Rightarrow> panic + hashState" where
  "lineFold windowSize [] s = Inr s"
| "lineFold windowSize (gray # rest) s =
     (case closeWindow windowSize s of
        Inl e \<Rightarrow> Inl e
      | Inr s' \<Rightarrow> lineFold windowSize rest (addPixel gray s'))"

fun lineFold64 :: "int \<Rightarrow> 8 word list \<Rightarrow> hashState64 \<Rightarrow> panic + hashState64" where
  "lineFold64 windowSize [] s = Inr s"
| "lineFold64 windowSize (gray # rest) s =
     (case closeWindow64 windowSize s of
        Inl e \<Rightarrow> Inl e
      | Inr s' \<Rightarrow> lineFold64 windowSize rest (addPixel64 gray s'))"

text \<open>\<^verbatim>\<open>Rectangle.Empty\<close>, \<^verbatim>\<open>Dx\<close> and \<^verbatim>\<open>Dy\<close>, and the number of lines a scan in direction
  \<open>dir\<close> crosses.\<close>

definition Empty :: "rectangle \<Rightarrow> bool" where
  "Empty r = (X (Min_r r) \<ge> X (Max_r r) \<or> Y (Min_r r) \<ge> Y (Max_r r))"

definition Dx :: "rectangle \<Rightarrow> int" where
  "Dx r = X (Max_r r) - X (Min_r r)"

definition Dy :: "rectangle \<Rightarrow> int" where
  "Dy r = Y (Max_r r) - Y (Min_r r)"

definition numLines :: "rectangle \<Rightarrow> point \<Rightarrow> nat" where
  "numLines r dir = (if Empty r then 0 else if X dir \<noteq> 0 then nat (Dx r) else nat (Dy r))"

text \<open>
  The points of the line through \<open>p\<close> that a scan advancing in direction \<open>dir\<close> sweeps
  (a column when the scan advances along x, a row otherwise), and whether that line
  holds a pixel of luminance at most 128.
\<close>

definition linePoints :: "rectangle \<Rightarrow> point \<Rightarrow> point \<Rightarrow> point list" where
  "linePoints b dir p =
     (if X dir \<noteq> 0 then map (\<lambda>y. Pt (X p) y) [Y (Min_r b) .. Y (Max_r b) - 1]
      else map (\<lambda>x. Pt x (Y p)) [X (Min_r b) .. X (Max_r b) - 1])"

definition nonBlank :: "'v image \<Rightarrow> point \<Rightarrow> point \<Rightarrow> bool" where
  "nonBlank img dir p =
     list_ex (\<lambda>q. unat (GrayAt img (X q) (Y q)) \<le> grayDarknessLimit) (linePoints (bounds img) dir p)"

text \<open>
  Every bit of the hashes belongs to a window that ends at or before the pixel count
  \<open>i\<close>.
\<close>

definition bitsBelow :: "int \<Rightarrow> hashState \<Rightarrow> int \<Rightarrow> bool" where
  "bitsBelow w s i \<longleftrightarrow>
     (\<forall>n. bit (avgHash s) n \<or> bit (highContrastHash s) n \<longrightarrow> 0 < w \<and> (int n + 1) * w \<le> i)"

definition bitsBelow64 :: "int \<Rightarrow> hashState64 \<Rightarrow> int \<Rightarrow> bool" where
  "bitsBelow64 w s i \<longleftrightarrow> (\<forall>n. bit (hash64 s) n \<longrightarrow> 0 < w \<and> (int n + 1) * w \<le> i)"

text \<open>
  A raster of a single luminance: every pixel inside the bounds has it. What \<^verbatim>\<open>At\<close>
  answers outside the bounds is left open.
\<close>

definition uniform :: "'v image \<Rightarrow> 8 word \<Rightarrow> bool" where
  "uniform img g =
     list_all (\<lambda>x. list_all (\<lambda>y. GrayAt img x y = g)
                         [Y (Min_r (bounds img)) .. Y (Max_r (bounds img)) - 1])
       [X (Min_r (bounds img)) .. X (Max_r (bounds img)) - 1]"

text \<open>
  The hashes of a line of \<open>n\<close> pixels of luminance \<open>g\<close> under the window size \<open>w\<close>.
\<close>

definition uniformLineHash :: "int \<Rightarrow> nat \<Rightarrow> 8 word \<Rightarrow> panic + 32 word \<times> 32 word" where
  "uniformLineHash w n g =
     (case lineFold w (replicate n g) initialHashState of
        Inl e \<Rightarrow> Inl e
      | Inr s \<Rightarrow> Inr (avgHash s, highContrastHash s))"

definition uniformLineHash64 :: "int \<Rightarrow> nat \<Rightarrow> 8 word \<Rightarrow> panic + 64 word" where
  "uniformLineHash64 w n g =
     (case lineFold64 w (replicate n g) initialHashState64 of
        Inl e \<Rightarrow> Inl e
      | Inr s \<Rightarrow> Inr (hash64 s))"

section \<open>Concrete rasters\<close>

text \<open>A white 10 x 10 raster without \<^verbatim>\<open>SubImage\<close>.\<close>

definition white10 :: "rectangle image" where
  "white10 = \<lparr>bounds = Rectangle (Pt 0 0) (Pt 10 10), GrayAt = (\<lambda>x y. 255),
              SubImage = None, isRGBA64Image = True\<rparr>"

text \<open>
  A 32 x 32 raster: a white frame one pixel wide around a black square. Its
  \<^verbatim>\<open>SubImage\<close> answers with the rectangle asked for.
\<close>

definition framed32 :: "rectangle image" where
  "framed32 = \<lparr>bounds = Rectangle (Pt 0 0) (Pt 32 32),
                GrayAt = (\<lambda>x y. if 1 \<le> x \<and> x \<le> 30 \<and> 1 \<le> y \<and> y \<le> 30 then 0 else 255),
                SubImage = Some (\<lambda>r. r), isRGBA64Image = True\<rparr>"

text \<open>The same picture at 64 x 64, for the simplified profile.\<close>

definition framed64 :: "rectangle image" where
  "framed64 = \<lparr>bounds = Rectangle (Pt 0 0) (Pt 64 64),
                GrayAt = (\<lambda>x y. if 1 \<le> x \<and> x \<le> 62 \<and> 1 \<le> y \<and> y \<le> 62 then 0 else 255),
                SubImage = Some (\<lambda>r. r), isRGBA64Image = True\<rparr>"

text \<open>A white 3 x 3 raster with one black pixel in the middle.\<close>

definition dot3 :: "rectangle image" where
  "dot3 = \<lparr>bounds = Rectangle (Pt 0 0) (Pt 3 3),
            GrayAt = (\<lambda>x y. if x = 1 \<and> y = 1 then 0 else 255),
            SubImage = Some (\<lambda>r. r), isRGBA64Image = True\<rparr>"

text \<open>A white 64 x 64 raster of a type that does not implement \<^verbatim>\<open>image.RGBA64Image\<close>.\<close>

definition white64 :: "rectangle image" where
  "white64 = \<lparr>bounds = Rectangle (Pt 0 0) (Pt 64 64), GrayAt = (\<lambda>x y. 255),
              SubImage = Some (\<lambda>r. r), isRGBA64Image = False\<rparr>"


text \<open>A white 64 x 64 view deep inside its parent: it starts at (70, 70).\<close>

definition view134 :: "rectangle image" where
  "view134 = \<lparr>bounds = Rectangle (Pt 70 70) (Pt 134 134), GrayAt = (\<lambda>x y. 255),
              SubImage = Some (\<lambda>r. r), isRGBA64Image = True\<rparr>"

text \<open>
  A white view of a single row, 64 pixels wide, at row 40 of a parent that is black
  around it.
\<close>

definition row40 :: "rectangle image" where
  "row40 = \<lparr>bounds = Rectangle (Pt 0 40) (Pt 64 41),
             GrayAt = (\<lambda>x y. if 0 \<le> x \<and> x < 64 \<and> y = 40 then 255 else 0),
             SubImage = Some (\<lambda>r. r), isRGBA64Image = True\<rparr>"

section \<open>Properties\<close>

subsection \<open>The hash comparator (C3)\<close>

lemma OnesCount32_xor: "OnesCount32 (a XOR b) = hammingDistance b a"
proof -
  have "bit (a XOR b) = (\<lambda>n. bit b n \<noteq> bit a n)"
    by (auto simp: bit_xor_iff fun_eq_iff)
  then show ?thesis
    by (simp add: OnesCount32_def hammingDistance_def del: upt.simps)
qed

lemma OnesCount64_xor: "OnesCount64 (a XOR b) = hammingDistance b a"
proof -
  have "bit (a XOR b) = (\<lambda>n. bit b n \<noteq> bit a n)"
    by (auto simp: bit_xor_iff fun_eq_iff)
  then show ?thesis
    by (simp add: OnesCount64_def hammingDistance_def del: upt.simps)
qed

lemma fullySaturated_iff: "fullySaturated (h :: 'a::len word) \<longleftrightarrow> h = 0 \<or> h = - 1"
proof -
  have "list_all (\<lambda>n. \<not> bit h n) [0..<LENGTH('a)] \<longleftrightarrow> h = 0"
    by (auto simp: list_all_iff bit_eq_iff bit_imp_le_length not_le dest: bit_imp_le_length)
  moreover have "list_all (bit h) [0..<LENGTH('a)] \<longleftrightarrow> h = - 1"
    by (auto simp: list_all_iff bit_eq_iff bit_imp_le_length not_le dest: bit_imp_le_length)
  ultimately show ?thesis by (simp add: fullySaturated_def)
qed

lemma xor_eq_zero_iff: "(a XOR b = 0) \<longleftrightarrow> a = (b :: 'a::len word)"
  by (metis bit.xor_self xor.assoc xor.right_neutral)

text \<open>
  C3. In the extended profile \<^verbatim>\<open>hashesMatch\<close> declares two consecutive lines
  different exactly when the previous base hash is fully saturated (all 32 bits 0 or
  all 32 bits 1) and the summed Hamming distance of the base and contrast hashes is at
  least 1, or when that summed distance is at least 3; in the simplified profile the
  lines are different exactly when the Hamming distance of the 64-bit hashes is at
  least 1.
\<close>

theorem hashesMatch_decision_rule:
  "((\<not> hashesMatch prevAvg prevHighContrast curAvg curHighContrast)
      = spec_differentExtended prevAvg prevHighContrast curAvg curHighContrast) \<and>
   (hashesDiffer64 prev hash = spec_differentSimplified prev hash)"
proof -
  have m1: "(0xFFFFFFFF :: 32 word) = - 1" by simp
  have sat: "(prevAvg XOR 0xFFFFFFFF = 0 \<or> prevAvg XOR 0 = 0) = fullySaturated prevAvg"
    unfolding fullySaturated_iff xor_eq_zero_iff m1 by auto
  have "(\<not> hashesMatch prevAvg prevHighContrast curAvg curHighContrast)
     = spec_differentExtended prevAvg prevHighContrast curAvg curHighContrast"
    unfolding hashesMatch_def spec_differentExtended_def sat OnesCount32_xor
      minDistinctBitsBetweenLines_def maxDistinctBitsBetweenLines_def
    by auto
  moreover have "hashesDiffer64 prev hash = spec_differentSimplified prev hash"
    by (simp add: hashesDiffer64_def spec_differentSimplified_def OnesCount64_xor
        minDistinctBitsBetweenLines_def)
  ultimately show ?thesis by simp
qed

text \<open>
  The rule at concrete hashes: one differing bit after an all-dark line is a border, one
  differing bit after a mixed line is not.
\<close>

theorem hashesMatch_decision_rule_witness:
  "\<not> hashesMatch 0 0 1 0 \<and> spec_differentExtended 0 0 1 0 \<and>
   hashesMatch 5 0 4 0 \<and> \<not> spec_differentExtended 5 0 4 0 \<and>
   hashesDiffer64 0 8 \<and> spec_differentSimplified 0 8"
proof -
  have "spec_differentExtended 0 0 1 0"
    by (simp add: spec_differentExtended_def fullySaturated_def hammingDistance_def bit_numeral_iff upt_rec)
  moreover have "\<not> spec_differentExtended 5 0 4 0"
    by (simp add: spec_differentExtended_def fullySaturated_def hammingDistance_def upt_rec)
  moreover have "spec_differentSimplified 0 8"
    by (simp add: spec_differentSimplified_def hammingDistance_def upt_rec)
  ultimately show ?thesis
    using hashesMatch_decision_rule [of 0 0 1 0 0 8] hashesMatch_decision_rule [of 5 0 4 0 0 8]
    by simp
qed

subsection \<open>The loops as walks over lines and pixels\<close>

lemma AddN_0: "AddN p d 0 = p"
  by (simp add: AddN_def)

lemma AddN_Add: "AddN (Add p d) d k = AddN p d (Suc k)"
  by (simp add: AddN_def Add_def algebra_simps)

lemma Add_AddN: "Add (AddN p d k) d = AddN p d (Suc k)"
  by (simp add: AddN_def Add_def algebra_simps)

lemma runLength_inside:
  "d \<in> directions \<Longrightarrow> k < runLength b p d \<Longrightarrow> In (AddN p d k) b"
  by (auto simp: directions_def runLength_def In_def AddN_def split: if_splits)

lemma runLength_exit:
  "d \<in> directions \<Longrightarrow> \<not> In (AddN p d (runLength b p d)) b"
  by (auto simp: directions_def runLength_def In_def AddN_def split: if_splits)

lemma pixelsFrom_0: "pixelsFrom img p d 0 = []"
  by (simp add: pixelsFrom_def)

lemma pixelsFrom_Suc:
  "pixelsFrom img p d (Suc n) = GrayAt img (X p) (Y p) # pixelsFrom img (Add p d) d n"
proof -
  have "[0..<Suc n] = 0 # map Suc [0..<n]"
    by (simp add: upt_conv_Cons map_Suc_upt del: upt_Suc)
  then show ?thesis
    by (simp add: pixelsFrom_def AddN_Add AddN_0 comp_def del: upt_Suc)
qed

lemma lineLoop_fold:
  "(\<And>k. k < n \<Longrightarrow> In (AddN spt scan k) (bounds img)) \<Longrightarrow> \<not> In (AddN spt scan n) (bounds img)
   \<Longrightarrow> lineLoop img scan w spt s = Some (lineFold w (pixelsFrom img spt scan n) s)"
proof (induction n arbitrary: spt s)
  case 0
  then show ?case
    by (subst lineLoop.simps) (simp add: AddN_0 pixelsFrom_0)
next
  case (Suc n)
  have inside: "In spt (bounds img)"
    using Suc.prems(1) [of 0] by (simp add: AddN_0)
  have step: "lineLoop img scan w (Add spt scan) s' =
      Some (lineFold w (pixelsFrom img (Add spt scan) scan n) s')" for s'
    using Suc.prems by (intro Suc.IH) (simp_all add: AddN_Add)
  show ?case
    by (subst lineLoop.simps) (simp add: inside pixelsFrom_Suc step split: sum.splits)
qed

lemma lineLoop_total:
  "scan \<in> directions \<Longrightarrow>
   lineLoop img scan w spt s =
     Some (lineFold w (pixelsFrom img spt scan (runLength (bounds img) spt scan)) s)"
  by (rule lineLoop_fold) (simp_all add: runLength_inside runLength_exit)

lemma scanLine_fold:
  "(\<And>k. k < n \<Longrightarrow> In (AddN pt scan k) (bounds img)) \<Longrightarrow> \<not> In (AddN pt scan n) (bounds img)
   \<Longrightarrow> scanLineForNonWhitespace img pt scan =
       Some (list_ex (\<lambda>g. unat g \<le> grayDarknessLimit) (pixelsFrom img pt scan n))"
proof (induction n arbitrary: pt)
  case 0
  then show ?case
    by (subst scanLineForNonWhitespace.simps) (simp add: AddN_0 pixelsFrom_0)
next
  case (Suc n)
  have inside: "In pt (bounds img)"
    using Suc.prems(1) [of 0] by (simp add: AddN_0)
  have step: "scanLineForNonWhitespace img (Add pt scan) scan =
      Some (list_ex (\<lambda>g. unat g \<le> grayDarknessLimit) (pixelsFrom img (Add pt scan) scan n))"
    using Suc.prems by (intro Suc.IH) (simp_all add: AddN_Add)
  show ?case
    by (subst scanLineForNonWhitespace.simps) (simp add: inside pixelsFrom_Suc step)
qed

lemma scanLine_total:
  "scan \<in> directions \<Longrightarrow>
   scanLineForNonWhitespace img pt scan =
     Some (list_ex (\<lambda>g. unat g \<le> grayDarknessLimit)
             (pixelsFrom img pt scan (runLength (bounds img) pt scan)))"
  by (rule scanLine_fold) (simp_all add: runLength_inside runLength_exit)

lemma findBorderLoop_found:
  "(\<And>k. k < k0 \<Longrightarrow>
       scanLineForNonWhitespace img (AddN dpt dir k) (Pt (Y dir) (X dir)) = Some False) \<Longrightarrow>
   scanLineForNonWhitespace img (AddN dpt dir k0) (Pt (Y dir) (X dir)) = Some True \<Longrightarrow>
   (\<And>k. 1 \<le> k \<Longrightarrow> k \<le> k0 \<Longrightarrow> In (AddN dpt dir k) (bounds img)) \<Longrightarrow>
   findBorderLoop img dir dpt n = Some (AddN dpt dir k0, n + k0 + 1)"
proof (induction k0 arbitrary: dpt n)
  case 0
  then show ?case
    by (subst findBorderLoop.simps) (simp add: AddN_0)
next
  case (Suc k0)
  have blank: "scanLineForNonWhitespace img dpt (Pt (Y dir) (X dir)) = Some False"
    using Suc.prems(1) [of 0] by (simp add: AddN_0)
  have inside: "In (Add dpt dir) (bounds img)"
    using Suc.prems(3) [of 1] by (simp add: AddN_Add [symmetric] AddN_0)
  have "findBorderLoop img dir (Add dpt dir) (Suc n) =
      Some (AddN (Add dpt dir) dir k0, Suc n + k0 + 1)"
    using Suc.prems by (intro Suc.IH) (simp_all add: AddN_Add)
  then show ?case
    by (subst findBorderLoop.simps) (simp add: blank inside AddN_Add)
qed

lemma findBorderLoop_exhausted:
  "(\<And>k. k < Suc m \<Longrightarrow>
       scanLineForNonWhitespace img (AddN dpt dir k) (Pt (Y dir) (X dir)) = Some False) \<Longrightarrow>
   (\<And>k. 1 \<le> k \<Longrightarrow> k < Suc m \<Longrightarrow> In (AddN dpt dir k) (bounds img)) \<Longrightarrow>
   \<not> In (AddN dpt dir (Suc m)) (bounds img) \<Longrightarrow>
   findBorderLoop img dir dpt n = Some (pointInScanCorner (bounds img) dir, n + Suc m)"
proof (induction m arbitrary: dpt n)
  case 0
  have blank: "scanLineForNonWhitespace img dpt (Pt (Y dir) (X dir)) = Some False"
    using 0(1) [of 0] by (simp add: AddN_0)
  have outside: "\<not> In (Add dpt dir) (bounds img)"
    using 0(3) by (simp add: AddN_Add [symmetric] AddN_0)
  show ?case
    by (subst findBorderLoop.simps) (simp add: blank outside)
next
  case (Suc m)
  have blank: "scanLineForNonWhitespace img dpt (Pt (Y dir) (X dir)) = Some False"
    using Suc.prems(1) [of 0] by (simp add: AddN_0)
  have inside: "In (Add dpt dir) (bounds img)"
    using Suc.prems(2) [of 1] by (simp add: AddN_Add [symmetric] AddN_0)
  have "findBorderLoop img dir (Add dpt dir) (Suc n) =
      Some (pointInScanCorner (bounds img) dir, Suc n + Suc m)"
    using Suc.prems by (intro Suc.IH) (simp_all add: AddN_Add)
  then show ?case
    by (subst findBorderLoop.simps) (simp add: blank inside)
qed

lemma avgHashLoop_differs:
  "(\<And>k. k \<le> k0 \<Longrightarrow>
       lineAverageHash img (AddN dpt dir k) (Pt (Y dir) (X dir)) = Some (Inr (ha (Suc k), hc (Suc k)))) \<Longrightarrow>
   (\<And>k. k < k0 \<Longrightarrow> hashesMatch (ha k) (hc k) (ha (Suc k)) (hc (Suc k))) \<Longrightarrow>
   \<not> hashesMatch (ha k0) (hc k0) (ha (Suc k0)) (hc (Suc k0)) \<Longrightarrow>
   (\<And>k. 1 \<le> k \<Longrightarrow> k \<le> k0 \<Longrightarrow> In (AddN dpt dir k) (bounds img)) \<Longrightarrow>
   avgHashLoop img dir (ha 0) (hc 0) dpt n = Some (Inr (AddN dpt dir k0, n + k0 + 1))"
proof (induction k0 arbitrary: dpt n ha hc)
  case 0
  have "lineAverageHash img dpt (Pt (Y dir) (X dir)) = Some (Inr (ha (Suc 0), hc (Suc 0)))"
    using 0(1) [of 0] by (simp add: AddN_0)
  then show ?case
    using 0(3) by (subst avgHashLoop.simps) (simp add: AddN_0)
next
  case (Suc k0)
  have cur: "lineAverageHash img dpt (Pt (Y dir) (X dir)) = Some (Inr (ha (Suc 0), hc (Suc 0)))"
    using Suc.prems(1) [of 0] by (simp add: AddN_0)
  have same: "hashesMatch (ha 0) (hc 0) (ha (Suc 0)) (hc (Suc 0))"
    using Suc.prems(2) [of 0] by simp
  have inside: "In (Add dpt dir) (bounds img)"
    using Suc.prems(4) [of 1] by (simp add: AddN_Add [symmetric] AddN_0)
  have "avgHashLoop img dir ((ha \<circ> Suc) 0) ((hc \<circ> Suc) 0) (Add dpt dir) (Suc n) =
      Some (Inr (AddN (Add dpt dir) dir k0, Suc n + k0 + 1))"
    using Suc.prems by (intro Suc.IH) (simp_all add: AddN_Add)
  then show ?case
    by (subst avgHashLoop.simps) (simp add: cur same inside AddN_Add)
qed

lemma avgHashLoop_exhausted:
  "(\<And>k. k < Suc m \<Longrightarrow>
       lineAverageHash img (AddN dpt dir k) (Pt (Y dir) (X dir)) = Some (Inr (ha (Suc k), hc (Suc k)))) \<Longrightarrow>
   (\<And>k. k < Suc m \<Longrightarrow> hashesMatch (ha k) (hc k) (ha (Suc k)) (hc (Suc k))) \<Longrightarrow>
   (\<And>k. 1 \<le> k \<Longrightarrow> k < Suc m \<Longrightarrow> In (AddN dpt dir k) (bounds img)) \<Longrightarrow>
   \<not> In (AddN dpt dir (Suc m)) (bounds img) \<Longrightarrow>
   avgHashLoop img dir (ha 0) (hc 0) dpt n =
     Some (Inr (pointInScanCorner (bounds img) dir, n + Suc m))"
proof (induction m arbitrary: dpt n ha hc)
  case 0
  have cur: "lineAverageHash img dpt (Pt (Y dir) (X dir)) = Some (Inr (ha (Suc 0), hc (Suc 0)))"
    using 0(1) [of 0] by (simp add: AddN_0)
  have same: "hashesMatch (ha 0) (hc 0) (ha (Suc 0)) (hc (Suc 0))"
    using 0(2) [of 0] by simp
  have outside: "\<not> In (Add dpt dir) (bounds img)"
    using 0(4) by (simp add: AddN_Add [symmetric] AddN_0)
  show ?case
    by (subst avgHashLoop.simps) (simp add: cur same outside)
next
  case (Suc m)
  have cur: "lineAverageHash img dpt (Pt (Y dir) (X dir)) = Some (Inr (ha (Suc 0), hc (Suc 0)))"
    using Suc.prems(1) [of 0] by (simp add: AddN_0)
  have same: "hashesMatch (ha 0) (hc 0) (ha (Suc 0)) (hc (Suc 0))"
    using Suc.prems(2) [of 0] by simp
  have inside: "In (Add dpt dir) (bounds img)"
    using Suc.prems(3) [of 1] by (simp add: AddN_Add [symmetric] AddN_0)
  have "avgHashLoop img dir ((ha \<circ> Suc) 0) ((hc \<circ> Suc) 0) (Add dpt dir) (Suc n) =
      Some (Inr (pointInScanCorner (bounds img) dir, Suc n + Suc m))"
    using Suc.prems by (intro Suc.IH) (simp_all add: AddN_Add)
  then show ?case
    by (subst avgHashLoop.simps) (simp add: cur same inside)
qed

subsection \<open>Crop and Auto (C5, C6)\<close>

text \<open>
  C5. \<^verbatim>\<open>Crop\<close> returns an error exactly when the raster has no \<^verbatim>\<open>SubImage\<close> method; the
  error is the capability error and comes with no image; with the method present
  \<^verbatim>\<open>Crop\<close> returns the requested view and no error. An error returned by \<^verbatim>\<open>Auto\<close> is
  that same error of \<^verbatim>\<open>Crop\<close>.
\<close>

theorem Crop_capability_error:
  "(snd (Crop img r) \<noteq> None \<longleftrightarrow> SubImage img = None) \<and>
   (snd (Crop img r) \<noteq> None \<longrightarrow>
      Crop img r = (None, Some (Errorf ''image does not support cropping''))) \<and>
   (\<forall>simg. SubImage img = Some simg \<longrightarrow> Crop img r = (Some (simg r), None)) \<and>
   (\<forall>v e. Auto img = Some (Inr (v, Some e)) \<or> Auto64 img = Some (Inr (v, Some e)) \<longrightarrow>
      SubImage img = None \<and> v = None \<and> e = Errorf ''image does not support cropping'')"
proof -
  have crop: "Crop img b = (None, Some (Errorf ''image does not support cropping'')) \<and>
        SubImage img = None \<or> (\<exists>simg. Crop img b = (Some (simg b), None))" for b
    by (cases "SubImage img") (auto simp: Crop_def)
  have auto: "SubImage img = None \<and> v = None \<and> e = Errorf ''image does not support cropping''"
    if "Auto img = Some (Inr (v, Some e)) \<or> Auto64 img = Some (Inr (v, Some e))" for v e
  proof -
    from that obtain b where
      "(case Crop img b of (cropped, err) \<Rightarrow>
          if err \<noteq> None then Some (Inr (None, err)) else Some (Inr (cropped, None)))
        = Some (Inr (v, Some e) :: panic + _)"
      by (auto simp: Auto_def Auto64_def andThen_def split: option.splits sum.splits)
    then show ?thesis
      using crop [of b] by (auto split: if_splits)
  qed
  show ?thesis
    using auto by (cases "SubImage img") (auto simp: Crop_def)
qed

text \<open>
  On the raster without \<^verbatim>\<open>SubImage\<close> the error comes back alone; on the framed raster the
  requested view does.
\<close>

theorem Crop_capability_error_witness:
  "SubImage white10 = None \<and>
   Crop white10 (Rectangle (Pt 0 0) (Pt 5 5)) =
     (None, Some (Errorf ''image does not support cropping'')) \<and>
   Crop framed32 (Rectangle (Pt 1 1) (Pt 31 31)) = (Some (Rectangle (Pt 1 1) (Pt 31 31)), None)"
proof -
  have "SubImage white10 = None"
    by (simp add: white10_def)
  moreover have "SubImage framed32 = Some (\<lambda>r. r)"
    by (simp add: framed32_def)
  ultimately show ?thesis
    using Crop_capability_error [of white10 "Rectangle (Pt 0 0) (Pt 5 5)"]
      Crop_capability_error [of framed32 "Rectangle (Pt 1 1) (Pt 31 31)"]
    by simp
qed

lemma Crop_shape:
  "(case Crop img b of (cropped, err) \<Rightarrow>
      if err \<noteq> None then Some (Inr (None, err)) else Some (Inr (cropped, None)))
   = Some (Inr (Crop img b))"
  by (cases "SubImage img") (simp_all add: Crop_def)

text \<open>
  C6. \<^verbatim>\<open>Auto\<close> returns what \<^verbatim>\<open>Crop\<close> returns on the rectangle computed by \<^verbatim>\<open>BoundsHash\<close>,
  image and error unchanged, in both profiles; where \<^verbatim>\<open>BoundsHash\<close> panics or does not
  return, so does \<^verbatim>\<open>Auto\<close>.
\<close>

theorem Auto_is_Crop_of_BoundsHash:
  "Auto img = andThen (BoundsHash img) (\<lambda>b. Some (Inr (Crop img b))) \<and>
   Auto64 img = andThen (BoundsHash64 img) (\<lambda>b. Some (Inr (Crop img b)))"
  unfolding Auto_def Auto64_def Crop_shape by simp

text \<open>
  On the framed 32 x 32 raster \<^verbatim>\<open>Auto\<close> returns the view of the black square.
\<close>

theorem Auto_is_Crop_of_BoundsHash_witness:
  "BoundsHash framed32 = Some (Inr (Rectangle (Pt 1 1) (Pt 31 31))) \<and>
   Auto framed32 = Some (Inr (Crop framed32 (Rectangle (Pt 1 1) (Pt 31 31)))) \<and>
   Auto framed32 = Some (Inr (Some (Rectangle (Pt 1 1) (Pt 31 31)), None))"
proof -
  have b: "BoundsHash framed32 = Some (Inr (Rectangle (Pt 1 1) (Pt 31 31)))"
    by code_simp
  have c: "Crop framed32 (Rectangle (Pt 1 1) (Pt 31 31)) = (Some (Rectangle (Pt 1 1) (Pt 31 31)), None)"
    by (simp add: Crop_def framed32_def)
  show ?thesis
    using Auto_is_Crop_of_BoundsHash [of framed32] by (simp add: b c andThen_def)
qed

subsection \<open>Panics of the hash scans (C1, C8)\<close>

text \<open>
  C1 fails on the code: on a 10 x 10 raster the window size is 10 / 32 = 0 (10 / 64 = 0
  in the simplified profile) and the first pixel of a line divides by it.
\<close>

theorem lineAverageHash_small_raster_divides_by_zero:
  "lineAverageHash white10 (Pt 0 0) (Pt 0 1) = Some (Inl DivideByZero) \<and>
   lineAverageHash64 (Some white10) (Pt 0 0) (Pt 0 1) = Some (Inl DivideByZero)"
  by code_simp

text \<open>
  C8 fails on the code: in the simplified profile a raster whose type does not implement
  \<^verbatim>\<open>image.RGBA64Image\<close> reaches \<^verbatim>\<open>lineAverageHash\<close> as a nil interface, and the scan
  panics; and in both profiles a raster smaller than the hash width divides by zero.
\<close>

theorem BoundsHash_panics:
  "BoundsHash64 white64 = Some (Inl NilDereference) \<and>
   findBorderUsingAvgHash64 white64 (Pt 1 0) = Some (Inl NilDereference) \<and>
   BoundsHash white10 = Some (Inl DivideByZero) \<and>
   BoundsHash64 white10 = Some (Inl DivideByZero)"
  by code_simp

lemma findBorderUsingAvgHash64_nil:
  "\<not> isRGBA64Image img \<Longrightarrow> findBorderUsingAvgHash64 img dir = Some (Inl NilDereference)"
  by (simp add: findBorderUsingAvgHash64_def lineAverageHash64_def)

lemma lineAverageHash_zero_window:
  "In pt (bounds img) \<Longrightarrow>
   (if X scan \<noteq> 0 then X (Max_r (bounds img)) else Y (Max_r (bounds img))) sdiv 32 = 0 \<Longrightarrow>
   lineAverageHash img pt scan = Some (Inl DivideByZero)"
  by (simp add: lineAverageHash_def Let_def lineLoop.simps [of img scan 0] closeWindow_def)

subsection \<open>The naive edge scanner (C7)\<close>

lemma corner_inside:
  "dir \<in> directions \<Longrightarrow> \<not> Empty b \<Longrightarrow> k < numLines b dir \<Longrightarrow>
   In (AddN (pointInScanCorner b dir) dir k) b"
  by (auto simp: directions_def Empty_def numLines_def In_def AddN_def pointInScanCorner_def
      Sub_def Dx_def Dy_def)

lemma corner_exit:
  "dir \<in> directions \<Longrightarrow> \<not> In (AddN (pointInScanCorner b dir) dir (numLines b dir)) b"
  by (auto simp: directions_def Empty_def numLines_def In_def AddN_def pointInScanCorner_def
      Sub_def Dx_def Dy_def)

lemma scan_directions: "dir \<in> directions \<Longrightarrow> Pt (Y dir) (X dir) \<in> directions"
  by (auto simp: directions_def)

lemma list_ex_pixelsFrom:
  "list_ex P (pixelsFrom img p d n) \<longleftrightarrow> (\<exists>k<n. P (GrayAt img (X (AddN p d k)) (Y (AddN p d k))))"
  by (auto simp: pixelsFrom_def list_ex_iff)

lemma bex_pixelsFrom:
  "(\<exists>g\<in>set (pixelsFrom img p d n). P g) \<longleftrightarrow>
   (\<exists>k<n. P (GrayAt img (X (AddN p d k)) (Y (AddN p d k))))"
  by (auto simp: pixelsFrom_def)

lemma ex_upward: "(\<exists>j<nat (hi - lo). P (lo + int j)) \<longleftrightarrow> (\<exists>y\<in>{lo..hi - 1}. P y)"
proof
  assume "\<exists>j<nat (hi - lo). P (lo + int j)"
  then obtain j where "j < nat (hi - lo)" "P (lo + int j)" by blast
  then show "\<exists>y\<in>{lo..hi - 1}. P y"
    by (intro bexI [of _ "lo + int j"]) auto
next
  assume "\<exists>y\<in>{lo..hi - 1}. P y"
  then obtain y where "lo \<le> y" "y \<le> hi - 1" "P y" by auto
  then show "\<exists>j<nat (hi - lo). P (lo + int j)"
    by (intro exI [of _ "nat (y - lo)"]) auto
qed

lemma ex_downward: "(\<exists>j<nat (hi - lo). P (hi - 1 - int j)) \<longleftrightarrow> (\<exists>y\<in>{lo..hi - 1}. P y)"
proof
  assume "\<exists>j<nat (hi - lo). P (hi - 1 - int j)"
  then obtain j where "j < nat (hi - lo)" "P (hi - 1 - int j)" by blast
  then show "\<exists>y\<in>{lo..hi - 1}. P y"
    by (intro bexI [of _ "hi - 1 - int j"]) auto
next
  assume "\<exists>y\<in>{lo..hi - 1}. P y"
  then obtain y where "lo \<le> y" "y \<le> hi - 1" "P y" by auto
  then show "\<exists>j<nat (hi - lo). P (hi - 1 - int j)"
    by (intro exI [of _ "nat (hi - 1 - y)"]) auto
qed

lemma scanLine_nonBlank:
  assumes "dir \<in> directions" "\<not> Empty (bounds img)" "k < numLines (bounds img) dir"
  shows "scanLineForNonWhitespace img (AddN (pointInScanCorner (bounds img) dir) dir k)
           (Pt (Y dir) (X dir))
         = Some (nonBlank img dir (AddN (pointInScanCorner (bounds img) dir) dir k))"
proof -
  let ?b = "bounds img"
  let ?p = "AddN (pointInScanCorner ?b dir) dir k"
  have inside: "In ?p ?b"
    using assms by (rule corner_inside)
  consider "dir = Pt 1 0" | "dir = Pt (- 1) 0" | "dir = Pt 0 1" | "dir = Pt 0 (- 1)"
    using assms(1) by (auto simp: directions_def)
  then have "list_ex (\<lambda>g. unat g \<le> grayDarknessLimit)
               (pixelsFrom img ?p (Pt (Y dir) (X dir)) (runLength ?b ?p (Pt (Y dir) (X dir))))
             = nonBlank img dir ?p"
  proof cases
    case 1
    show ?thesis
      using inside ex_upward [of "Y (Max_r ?b)" "Y (Min_r ?b)"
          "\<lambda>y. unat (GrayAt img (X (Min_r ?b) + int k) y) \<le> grayDarknessLimit"]
      by (simp add: 1 bex_pixelsFrom nonBlank_def linePoints_def list_ex_iff runLength_def
          AddN_def pointInScanCorner_def)
  next
    case 2
    show ?thesis
      using inside ex_downward [of "Y (Max_r ?b)" "Y (Min_r ?b)"
          "\<lambda>y. unat (GrayAt img (X (Max_r ?b) - 1 - int k) y) \<le> grayDarknessLimit"]
      by (simp add: 2 bex_pixelsFrom nonBlank_def linePoints_def list_ex_iff runLength_def
          AddN_def pointInScanCorner_def Sub_def)
  next
    case 3
    show ?thesis
      using inside ex_upward [of "X (Max_r ?b)" "X (Min_r ?b)"
          "\<lambda>x. unat (GrayAt img x (Y (Min_r ?b) + int k)) \<le> grayDarknessLimit"]
      by (simp add: 3 bex_pixelsFrom nonBlank_def linePoints_def list_ex_iff runLength_def
          AddN_def pointInScanCorner_def)
  next
    case 4
    show ?thesis
      using inside ex_downward [of "X (Max_r ?b)" "X (Min_r ?b)"
          "\<lambda>x. unat (GrayAt img x (Y (Max_r ?b) - 1 - int k)) \<le> grayDarknessLimit"]
      by (simp add: 4 bex_pixelsFrom nonBlank_def linePoints_def list_ex_iff runLength_def
          AddN_def pointInScanCorner_def Sub_def)
  qed
  then show ?thesis
    using scanLine_total [OF scan_directions [OF assms(1)], of img ?p] by simp
qed

lemma findBorder_first_nonBlank:
  assumes dir: "dir \<in> directions" and ne: "\<not> Empty (bounds img)"
    and k0: "k0 < numLines (bounds img) dir"
    and dark: "nonBlank img dir (AddN (pointInScanCorner (bounds img) dir) dir k0)"
    and blank: "\<And>k. k < k0 \<Longrightarrow> \<not> nonBlank img dir (AddN (pointInScanCorner (bounds img) dir) dir k)"
  shows "findBorder img dir =
     Some (if X dir < 0 \<or> Y dir < 0
           then Sub (AddN (pointInScanCorner (bounds img) dir) dir k0) dir
           else AddN (pointInScanCorner (bounds img) dir) dir k0)"
proof -
  let ?c = "pointInScanCorner (bounds img) dir"
  have "findBorderLoop img dir ?c 0 = Some (AddN ?c dir k0, 0 + k0 + 1)"
  proof (rule findBorderLoop_found)
    fix k assume "k < k0"
    then show "scanLineForNonWhitespace img (AddN ?c dir k) (Pt (Y dir) (X dir)) = Some False"
      using scanLine_nonBlank [OF dir ne, of k] blank [of k] k0 by simp
  next
    show "scanLineForNonWhitespace img (AddN ?c dir k0) (Pt (Y dir) (X dir)) = Some True"
      using scanLine_nonBlank [OF dir ne k0] dark by simp
  next
    fix k assume "1 \<le> k" "k \<le> k0"
    then show "In (AddN ?c dir k) (bounds img)"
      using corner_inside [OF dir ne, of k] k0 by simp
  qed
  then show ?thesis
    by (simp add: findBorder_def)
qed

lemma findBorder_all_blank:
  assumes dir: "dir \<in> directions" and ne: "\<not> Empty (bounds img)"
    and blank: "\<And>k. k < numLines (bounds img) dir \<Longrightarrow>
      \<not> nonBlank img dir (AddN (pointInScanCorner (bounds img) dir) dir k)"
  shows "findBorder img dir =
     Some (if X dir < 0 \<or> Y dir < 0
           then Sub (pointInScanCorner (bounds img) dir) dir
           else pointInScanCorner (bounds img) dir)"
proof -
  let ?c = "pointInScanCorner (bounds img) dir"
  have "0 < numLines (bounds img) dir"
    using dir ne by (auto simp: numLines_def Empty_def Dx_def Dy_def)
  then obtain m where m: "numLines (bounds img) dir = Suc m"
    by (cases "numLines (bounds img) dir") auto
  have "findBorderLoop img dir ?c 0 = Some (?c, 0 + Suc m)"
  proof (rule findBorderLoop_exhausted)
    fix k assume "k < Suc m"
    then show "scanLineForNonWhitespace img (AddN ?c dir k) (Pt (Y dir) (X dir)) = Some False"
      using scanLine_nonBlank [OF dir ne, of k] blank [of k] m by simp
  next
    fix k assume "1 \<le> k" "k < Suc m"
    then show "In (AddN ?c dir k) (bounds img)"
      using corner_inside [OF dir ne, of k] m by simp
  next
    show "\<not> In (AddN ?c dir (Suc m)) (bounds img)"
      using corner_exit [OF dir, of "bounds img"] m by simp
  qed
  then show ?thesis
    by (simp add: findBorder_def)
qed

text \<open>
  C7, as the code has it. For a non-empty raster and each of the four directions, with
  the lines counted inward from the starting corner: when line \<open>k0\<close> is the first
  that holds a pixel of luminance at most 128, \<^verbatim>\<open>findBorder\<close> returns the position of
  that line for the directions (1, 0) and (0, 1), and the position one step back
  towards the start (the line's exclusive upper bound) for (-1, 0) and (0, -1); when no
  line holds such a pixel it returns the starting corner, moved one step back for the
  negative directions, which is the raster's own edge on that side.
\<close>

theorem findBorder_edge:
  assumes "dir \<in> directions" and "\<not> Empty (bounds img)"
  shows "(k0 < numLines (bounds img) dir \<and>
          nonBlank img dir (AddN (pointInScanCorner (bounds img) dir) dir k0) \<and>
          (\<forall>k<k0. \<not> nonBlank img dir (AddN (pointInScanCorner (bounds img) dir) dir k))
          \<longrightarrow> findBorder img dir =
                Some (if X dir < 0 \<or> Y dir < 0
                      then Sub (AddN (pointInScanCorner (bounds img) dir) dir k0) dir
                      else AddN (pointInScanCorner (bounds img) dir) dir k0)) \<and>
         ((\<forall>k<numLines (bounds img) dir.
              \<not> nonBlank img dir (AddN (pointInScanCorner (bounds img) dir) dir k))
          \<longrightarrow> findBorder img dir =
                Some (if X dir < 0 \<or> Y dir < 0
                      then Sub (pointInScanCorner (bounds img) dir) dir
                      else pointInScanCorner (bounds img) dir))"
  using findBorder_first_nonBlank [OF assms, of k0] findBorder_all_blank [OF assms]
  by blast

lemma dot3_lines:
  "\<not> nonBlank dot3 (Pt (- 1) 0) (Pt 2 2)" "nonBlank dot3 (Pt (- 1) 0) (Pt 1 2)"
  "nonBlank dot3 (Pt 1 0) (Pt 1 0)" "\<not> nonBlank dot3 (Pt 1 0) (Pt 0 0)"
  by code_simp+

text \<open>
  On the 3 x 3 raster with the black pixel in the middle: the leftward scan finds
  column 1 and returns column 2, the rightward scan finds and returns column 1.
\<close>

theorem findBorder_edge_witness:
  "Pt (- 1) 0 \<in> directions \<and> \<not> Empty (bounds dot3) \<and>
   \<not> nonBlank dot3 (Pt (- 1) 0) (Pt 2 2) \<and> nonBlank dot3 (Pt (- 1) 0) (Pt 1 2) \<and>
   findBorder dot3 (Pt (- 1) 0) = Some (Pt 2 2) \<and>
   \<not> nonBlank dot3 (Pt 1 0) (Pt 0 0) \<and> nonBlank dot3 (Pt 1 0) (Pt 1 0) \<and>
   findBorder dot3 (Pt 1 0) = Some (Pt 1 0)"
proof -
  have d: "Pt (- 1) 0 \<in> directions" "Pt 1 0 \<in> directions"
    by (simp_all add: directions_def)
  have ne: "\<not> Empty (bounds dot3)"
    by (simp add: dot3_def Empty_def)
  have n: "numLines (bounds dot3) (Pt (- 1) 0) = 3" "numLines (bounds dot3) (Pt 1 0) = 3"
    by (simp_all add: dot3_def numLines_def Empty_def Dx_def)
  have c: "pointInScanCorner (bounds dot3) (Pt (- 1) 0) = Pt 2 2"
      "pointInScanCorner (bounds dot3) (Pt 1 0) = Pt 0 0"
    by (simp_all add: dot3_def pointInScanCorner_def Sub_def)
  have "findBorder dot3 (Pt (- 1) 0) = Some (Pt 2 2)"
    using findBorder_edge [OF d(1) ne, of 1] dot3_lines
    by (simp add: n c AddN_def Sub_def)
  moreover have "findBorder dot3 (Pt 1 0) = Some (Pt 1 0)"
    using findBorder_edge [OF d(2) ne, of 1] dot3_lines
    by (simp add: n c AddN_def Sub_def)
  ultimately show ?thesis
    using d ne dot3_lines by simp
qed

text \<open>
  The claim as stated fails: scanning leftwards over the 3 x 3 raster with one black
  pixel in the middle, the first line with a dark pixel is column 1, and \<^verbatim>\<open>findBorder\<close>
  returns the blank column 2; and on an all-white raster the rightward scan returns the
  corner it started from.
\<close>

theorem findBorder_first_line_counterexample:
  "findBorder dot3 (Pt (- 1) 0) = Some (Pt 2 2) \<and>
   \<not> nonBlank dot3 (Pt (- 1) 0) (Pt 2 2) \<and> nonBlank dot3 (Pt (- 1) 0) (Pt 1 2) \<and>
   findBorder white10 (Pt 1 0) = Some (Pt 0 0) \<and>
   pointInScanCorner (bounds white10) (Pt 1 0) = Pt 0 0"
  by code_simp

subsection \<open>The edge returned by the hash scan (C2)\<close>

lemma avgHashLoop64_differs:
  "(\<And>k. k \<le> k0 \<Longrightarrow>
       lineAverageHash64 rgbimg (AddN dpt dir k) (Pt (Y dir) (X dir)) = Some (Inr (h (Suc k)))) \<Longrightarrow>
   (\<And>k. k < k0 \<Longrightarrow> \<not> hashesDiffer64 (h k) (h (Suc k))) \<Longrightarrow>
   hashesDiffer64 (h k0) (h (Suc k0)) \<Longrightarrow>
   (\<And>k. 1 \<le> k \<Longrightarrow> k \<le> k0 \<Longrightarrow> In (AddN dpt dir k) (bounds img)) \<Longrightarrow>
   avgHashLoop64 img rgbimg dir (h 0) dpt n = Some (Inr (AddN dpt dir k0, n + k0 + 1))"
proof (induction k0 arbitrary: dpt n h)
  case 0
  have "lineAverageHash64 rgbimg dpt (Pt (Y dir) (X dir)) = Some (Inr (h (Suc 0)))"
    using 0(1) [of 0] by (simp add: AddN_0)
  then show ?case
    using 0(3) by (subst avgHashLoop64.simps) (simp add: AddN_0)
next
  case (Suc k0)
  have cur: "lineAverageHash64 rgbimg dpt (Pt (Y dir) (X dir)) = Some (Inr (h (Suc 0)))"
    using Suc.prems(1) [of 0] by (simp add: AddN_0)
  have same: "\<not> hashesDiffer64 (h 0) (h (Suc 0))"
    using Suc.prems(2) [of 0] by simp
  have inside: "In (Add dpt dir) (bounds img)"
    using Suc.prems(4) [of 1] by (simp add: AddN_Add [symmetric] AddN_0)
  have "avgHashLoop64 img rgbimg dir ((h \<circ> Suc) 0) (Add dpt dir) (Suc n) =
      Some (Inr (AddN (Add dpt dir) dir k0, Suc n + k0 + 1))"
    using Suc.prems by (intro Suc.IH) (simp_all add: AddN_Add)
  then show ?case
    by (subst avgHashLoop64.simps) (simp add: cur same inside AddN_Add)
qed

lemma avgHashLoop64_exhausted:
  "(\<And>k. k < Suc m \<Longrightarrow>
       lineAverageHash64 rgbimg (AddN dpt dir k) (Pt (Y dir) (X dir)) = Some (Inr (h (Suc k)))) \<Longrightarrow>
   (\<And>k. k < Suc m \<Longrightarrow> \<not> hashesDiffer64 (h k) (h (Suc k))) \<Longrightarrow>
   (\<And>k. 1 \<le> k \<Longrightarrow> k < Suc m \<Longrightarrow> In (AddN dpt dir k) (bounds img)) \<Longrightarrow>
   \<not> In (AddN dpt dir (Suc m)) (bounds img) \<Longrightarrow>
   avgHashLoop64 img rgbimg dir (h 0) dpt n =
     Some (Inr (pointInScanCorner (bounds img) dir, n + Suc m))"
proof (induction m arbitrary: dpt n h)
  case 0
  have cur: "lineAverageHash64 rgbimg dpt (Pt (Y dir) (X dir)) = Some (Inr (h (Suc 0)))"
    using 0(1) [of 0] by (simp add: AddN_0)
  have same: "\<not> hashesDiffer64 (h 0) (h (Suc 0))"
    using 0(2) [of 0] by simp
  have outside: "\<not> In (Add dpt dir) (bounds img)"
    using 0(4) by (simp add: AddN_Add [symmetric] AddN_0)
  show ?case
    by (subst avgHashLoop64.simps) (simp add: cur same outside)
next
  case (Suc m)
  have cur: "lineAverageHash64 rgbimg dpt (Pt (Y dir) (X dir)) = Some (Inr (h (Suc 0)))"
    using Suc.prems(1) [of 0] by (simp add: AddN_0)
  have same: "\<not> hashesDiffer64 (h 0) (h (Suc 0))"
    using Suc.prems(2) [of 0] by simp
  have inside: "In (Add dpt dir) (bounds img)"
    using Suc.prems(3) [of 1] by (simp add: AddN_Add [symmetric] AddN_0)
  have "avgHashLoop64 img rgbimg dir ((h \<circ> Suc) 0) (Add dpt dir) (Suc n) =
      Some (Inr (pointInScanCorner (bounds img) dir, Suc n + Suc m))"
    using Suc.prems by (intro Suc.IH) (simp_all add: AddN_Add)
  then show ?case
    by (subst avgHashLoop64.simps) (simp add: cur same inside)
qed

lemma Sub_AddN_Suc: "Sub (AddN c dir (Suc k)) dir = AddN c dir k"
  by (simp add: Sub_def AddN_def algebra_simps)

lemma findBorderUsingAvgHash_differs:
  assumes "\<And>k. k \<le> Suc k0 \<Longrightarrow>
      lineAverageHash img (AddN (pointInScanCorner (bounds img) dir) dir k) (Pt (Y dir) (X dir))
        = Some (Inr (ha k, hc k))"
    and "\<And>k. k < k0 \<Longrightarrow> hashesMatch (ha k) (hc k) (ha (Suc k)) (hc (Suc k))"
    and "\<not> hashesMatch (ha k0) (hc k0) (ha (Suc k0)) (hc (Suc k0))"
    and "\<And>k. 2 \<le> k \<Longrightarrow> k \<le> Suc k0 \<Longrightarrow> In (AddN (pointInScanCorner (bounds img) dir) dir k) (bounds img)"
  shows "findBorderUsingAvgHash img dir =
     Some (Inr (if X dir < 0 \<or> Y dir < 0
                then AddN (pointInScanCorner (bounds img) dir) dir k0
                else AddN (pointInScanCorner (bounds img) dir) dir (Suc k0)))"
proof -
  let ?c = "pointInScanCorner (bounds img) dir"
  have first: "lineAverageHash img ?c (Pt (Y dir) (X dir)) = Some (Inr (ha 0, hc 0))"
    using assms(1) [of 0] by (simp add: AddN_0)
  have "avgHashLoop img dir (ha 0) (hc 0) (Add ?c dir) 0 =
      Some (Inr (AddN (Add ?c dir) dir k0, 0 + k0 + 1))"
    using assms by (intro avgHashLoop_differs) (simp_all add: AddN_Add)
  then show ?thesis
    by (simp add: findBorderUsingAvgHash_def first AddN_Add Sub_AddN_Suc)
qed

lemma findBorderUsingAvgHash64_differs:
  assumes "isRGBA64Image img"
    and "\<And>k. k \<le> Suc k0 \<Longrightarrow>
      lineAverageHash64 (Some img) (AddN (pointInScanCorner (bounds img) dir) dir k) (Pt (Y dir) (X dir))
        = Some (Inr (h k))"
    and "\<And>k. k < k0 \<Longrightarrow> \<not> hashesDiffer64 (h k) (h (Suc k))"
    and "hashesDiffer64 (h k0) (h (Suc k0))"
    and "\<And>k. 2 \<le> k \<Longrightarrow> k \<le> Suc k0 \<Longrightarrow> In (AddN (pointInScanCorner (bounds img) dir) dir k) (bounds img)"
  shows "findBorderUsingAvgHash64 img dir =
     Some (Inr (if X dir < 0 \<or> Y dir < 0
                then AddN (pointInScanCorner (bounds img) dir) dir k0
                else AddN (pointInScanCorner (bounds img) dir) dir (Suc k0)))"
proof -
  let ?c = "pointInScanCorner (bounds img) dir"
  have first: "lineAverageHash64 (Some img) ?c (Pt (Y dir) (X dir)) = Some (Inr (h 0))"
    using assms(2) [of 0] by (simp add: AddN_0)
  have "avgHashLoop64 img (Some img) dir (h 0) (Add ?c dir) 0 =
      Some (Inr (AddN (Add ?c dir) dir k0, 0 + k0 + 1))"
    using assms by (intro avgHashLoop64_differs) (simp_all add: AddN_Add)
  then show ?thesis
    by (simp add: findBorderUsingAvgHash64_def assms(1) first AddN_Add Sub_AddN_Suc)
qed

text \<open>
  C2, as the code has it. Let the lines be counted from the starting corner of the scan,
  let line \<open>Suc k0\<close> be the first whose hashes the comparator declares different from
  those of the line before it, and let every line the loop moves on to lie inside the
  raster. Then \<^verbatim>\<open>findBorderUsingAvgHash\<close> returns the position of the previous line
  \<open>k0\<close> for the directions (-1, 0) and (0, -1), and the position of the current line
  \<open>Suc k0\<close> for the directions (1, 0) and (0, 1); in both profiles.
\<close>

theorem findBorderUsingAvgHash_edge:
  "((\<forall>k\<le>Suc k0. lineAverageHash img (AddN (pointInScanCorner (bounds img) dir) dir k)
                    (Pt (Y dir) (X dir)) = Some (Inr (ha k, hc k))) \<and>
    (\<forall>k<k0. hashesMatch (ha k) (hc k) (ha (Suc k)) (hc (Suc k))) \<and>
    \<not> hashesMatch (ha k0) (hc k0) (ha (Suc k0)) (hc (Suc k0)) \<and>
    (\<forall>k. 2 \<le> k \<and> k \<le> Suc k0 \<longrightarrow>
         In (AddN (pointInScanCorner (bounds img) dir) dir k) (bounds img))
    \<longrightarrow> findBorderUsingAvgHash img dir =
          Some (Inr (if X dir < 0 \<or> Y dir < 0
                     then AddN (pointInScanCorner (bounds img) dir) dir k0
                     else AddN (pointInScanCorner (bounds img) dir) dir (Suc k0)))) \<and>
   (isRGBA64Image img \<and>
    (\<forall>k\<le>Suc k0. lineAverageHash64 (Some img) (AddN (pointInScanCorner (bounds img) dir) dir k)
                    (Pt (Y dir) (X dir)) = Some (Inr (h k))) \<and>
    (\<forall>k<k0. \<not> hashesDiffer64 (h k) (h (Suc k))) \<and>
    hashesDiffer64 (h k0) (h (Suc k0)) \<and>
    (\<forall>k. 2 \<le> k \<and> k \<le> Suc k0 \<longrightarrow>
         In (AddN (pointInScanCorner (bounds img) dir) dir k) (bounds img))
    \<longrightarrow> findBorderUsingAvgHash64 img dir =
          Some (Inr (if X dir < 0 \<or> Y dir < 0
                     then AddN (pointInScanCorner (bounds img) dir) dir k0
                     else AddN (pointInScanCorner (bounds img) dir) dir (Suc k0))))"
proof (intro conjI impI)
  assume "(\<forall>k\<le>Suc k0. lineAverageHash img (AddN (pointInScanCorner (bounds img) dir) dir k)
                    (Pt (Y dir) (X dir)) = Some (Inr (ha k, hc k))) \<and>
    (\<forall>k<k0. hashesMatch (ha k) (hc k) (ha (Suc k)) (hc (Suc k))) \<and>
    \<not> hashesMatch (ha k0) (hc k0) (ha (Suc k0)) (hc (Suc k0)) \<and>
    (\<forall>k. 2 \<le> k \<and> k \<le> Suc k0 \<longrightarrow>
         In (AddN (pointInScanCorner (bounds img) dir) dir k) (bounds img))"
  then show "findBorderUsingAvgHash img dir =
          Some (Inr (if X dir < 0 \<or> Y dir < 0
                     then AddN (pointInScanCorner (bounds img) dir) dir k0
                     else AddN (pointInScanCorner (bounds img) dir) dir (Suc k0)))"
    by (intro findBorderUsingAvgHash_differs [where ha = ha and hc = hc]) blast+
next
  assume "isRGBA64Image img \<and>
    (\<forall>k\<le>Suc k0. lineAverageHash64 (Some img) (AddN (pointInScanCorner (bounds img) dir) dir k)
                    (Pt (Y dir) (X dir)) = Some (Inr (h k))) \<and>
    (\<forall>k<k0. \<not> hashesDiffer64 (h k) (h (Suc k))) \<and>
    hashesDiffer64 (h k0) (h (Suc k0)) \<and>
    (\<forall>k. 2 \<le> k \<and> k \<le> Suc k0 \<longrightarrow>
         In (AddN (pointInScanCorner (bounds img) dir) dir k) (bounds img))"
  then show "findBorderUsingAvgHash64 img dir =
          Some (Inr (if X dir < 0 \<or> Y dir < 0
                     then AddN (pointInScanCorner (bounds img) dir) dir k0
                     else AddN (pointInScanCorner (bounds img) dir) dir (Suc k0)))"
    by (intro findBorderUsingAvgHash64_differs [where h = h]) blast+
qed

lemma framed32_hashes:
  "lineAverageHash framed32 (Pt 31 31) (Pt 0 (- 1)) = Some (Inr (4294967294, 0))"
  "lineAverageHash framed32 (Pt 30 31) (Pt 0 (- 1)) = Some (Inr (2, 0))"
  "lineAverageHash framed32 (Pt 0 0) (Pt 0 1) = Some (Inr (4294967294, 0))"
  "lineAverageHash framed32 (Pt 1 0) (Pt 0 1) = Some (Inr (2, 0))"
  "\<not> hashesMatch 4294967294 0 2 0"
  by code_simp+

lemma framed64_hashes:
  "lineAverageHash64 (Some framed64) (Pt 0 0) (Pt 0 1) = Some (Inr 18446744073709551614)"
  "lineAverageHash64 (Some framed64) (Pt 1 0) (Pt 0 1) = Some (Inr 2)"
  "hashesDiffer64 18446744073709551614 2"
  by code_simp+

lemma le_Suc_0_cases: "k \<le> Suc 0 \<longleftrightarrow> k = 0 \<or> k = Suc 0"
  by auto

text \<open>
  On the framed rasters the second line is the first to differ: the leftward scan
  returns the position of the first line, the rightward scans that of the second.
\<close>

theorem findBorderUsingAvgHash_edge_witness:
  "lineAverageHash framed32 (Pt 31 31) (Pt 0 (- 1)) = Some (Inr (4294967294, 0)) \<and>
   lineAverageHash framed32 (Pt 30 31) (Pt 0 (- 1)) = Some (Inr (2, 0)) \<and>
   \<not> hashesMatch 4294967294 0 2 0 \<and>
   findBorderUsingAvgHash framed32 (Pt (- 1) 0) = Some (Inr (Pt 31 31)) \<and>
   lineAverageHash framed32 (Pt 0 0) (Pt 0 1) = Some (Inr (4294967294, 0)) \<and>
   lineAverageHash framed32 (Pt 1 0) (Pt 0 1) = Some (Inr (2, 0)) \<and>
   findBorderUsingAvgHash framed32 (Pt 1 0) = Some (Inr (Pt 1 0)) \<and>
   isRGBA64Image framed64 \<and>
   lineAverageHash64 (Some framed64) (Pt 0 0) (Pt 0 1) = Some (Inr 18446744073709551614) \<and>
   lineAverageHash64 (Some framed64) (Pt 1 0) (Pt 0 1) = Some (Inr 2) \<and>
   hashesDiffer64 18446744073709551614 2 \<and>
   findBorderUsingAvgHash64 framed64 (Pt 1 0) = Some (Inr (Pt 1 0))"
proof -
  have c: "pointInScanCorner (bounds framed32) (Pt (- 1) 0) = Pt 31 31"
      "pointInScanCorner (bounds framed32) (Pt 1 0) = Pt 0 0"
      "pointInScanCorner (bounds framed64) (Pt 1 0) = Pt 0 0"
    by (simp_all add: framed32_def framed64_def pointInScanCorner_def Sub_def)
  have rgba: "isRGBA64Image framed64"
    by (simp add: framed64_def)
  have "findBorderUsingAvgHash framed32 (Pt (- 1) 0) = Some (Inr (Pt 31 31))"
    using findBorderUsingAvgHash_edge [of 0 framed32 "Pt (- 1) 0"
        "\<lambda>k. if k = 0 then 4294967294 else 2" "\<lambda>k. 0", THEN conjunct1] framed32_hashes
    by (auto simp: c AddN_def le_Suc_0_cases)
  moreover have "findBorderUsingAvgHash framed32 (Pt 1 0) = Some (Inr (Pt 1 0))"
    using findBorderUsingAvgHash_edge [of 0 framed32 "Pt 1 0"
        "\<lambda>k. if k = 0 then 4294967294 else 2" "\<lambda>k. 0", THEN conjunct1] framed32_hashes
    by (auto simp: c AddN_def le_Suc_0_cases)
  moreover have "findBorderUsingAvgHash64 framed64 (Pt 1 0) = Some (Inr (Pt 1 0))"
    using findBorderUsingAvgHash_edge [of 0 framed64 "Pt 1 0" _ _
        "\<lambda>k. if k = 0 then 18446744073709551614 else 2", THEN conjunct2] framed64_hashes rgba
    by (auto simp: c AddN_def le_Suc_0_cases)
  ultimately show ?thesis
    using framed32_hashes framed64_hashes rgba by simp
qed

text \<open>
  The claim as stated fails: scanning rightwards over the framed 32 x 32 raster, column
  1 is the first line whose hashes differ from those of the previous line, column 0,
  and the scan returns the position of column 1, the current line.
\<close>

theorem findBorderUsingAvgHash_previous_line_counterexample:
  "pointInScanCorner (bounds framed32) (Pt 1 0) = Pt 0 0 \<and>
   lineAverageHash framed32 (Pt 0 0) (Pt 0 1) = Some (Inr (4294967294, 0)) \<and>
   lineAverageHash framed32 (Pt 1 0) (Pt 0 1) = Some (Inr (2, 0)) \<and>
   \<not> hashesMatch 4294967294 0 2 0 \<and>
   findBorderUsingAvgHash framed32 (Pt 1 0) = Some (Inr (Pt 1 0)) \<and>
   findBorderUsingAvgHash framed32 (Pt 1 0) \<noteq> Some (Inr (Pt 0 0))"
  by code_simp

subsection \<open>Termination (C9)\<close>

lemma lineLoop64_fold:
  "(\<And>k. k < n \<Longrightarrow> In (AddN spt scan k) (bounds img)) \<Longrightarrow> \<not> In (AddN spt scan n) (bounds img)
   \<Longrightarrow> lineLoop64 img scan w spt s = Some (lineFold64 w (pixelsFrom img spt scan n) s)"
proof (induction n arbitrary: spt s)
  case 0
  then show ?case
    by (subst lineLoop64.simps) (simp add: AddN_0 pixelsFrom_0)
next
  case (Suc n)
  have inside: "In spt (bounds img)"
    using Suc.prems(1) [of 0] by (simp add: AddN_0)
  have step: "lineLoop64 img scan w (Add spt scan) s' =
      Some (lineFold64 w (pixelsFrom img (Add spt scan) scan n) s')" for s'
    using Suc.prems by (intro Suc.IH) (simp_all add: AddN_Add)
  show ?case
    by (subst lineLoop64.simps) (simp add: inside pixelsFrom_Suc step split: sum.splits)
qed

lemma lineLoop64_total:
  "scan \<in> directions \<Longrightarrow>
   lineLoop64 img scan w spt s =
     Some (lineFold64 w (pixelsFrom img spt scan (runLength (bounds img) spt scan)) s)"
  by (rule lineLoop64_fold) (simp_all add: runLength_inside runLength_exit)

lemma lineAverageHash_total:
  "scan \<in> directions \<Longrightarrow> \<exists>r. lineAverageHash img pt scan = Some r"
  by (simp add: lineAverageHash_def Let_def lineLoop_total split: sum.splits)

lemma lineAverageHash64_total:
  "scan \<in> directions \<Longrightarrow> \<exists>r. lineAverageHash64 rgbimg pt scan = Some r"
  by (cases rgbimg) (simp_all add: lineAverageHash64_def Let_def lineLoop64_total split: sum.splits)

lemma Empty_not_In: "Empty b \<Longrightarrow> \<not> In p b"
  by (auto simp: Empty_def In_def)

lemma corner_beyond:
  "dir \<in> directions \<Longrightarrow> numLines b dir \<le> k \<Longrightarrow>
   \<not> In (AddN (pointInScanCorner b dir) dir k) b"
  by (auto simp: directions_def Empty_def numLines_def In_def AddN_def pointInScanCorner_def
      Sub_def Dx_def Dy_def split: if_splits)

lemma findBorderLoop_terminates:
  "dir \<in> directions \<Longrightarrow>
   (\<And>k. 1 \<le> k \<Longrightarrow> k < Suc m \<Longrightarrow> In (AddN dpt dir k) (bounds img)) \<Longrightarrow>
   \<not> In (AddN dpt dir (Suc m)) (bounds img) \<Longrightarrow>
   \<exists>p n'. findBorderLoop img dir dpt n = Some (p, n') \<and> n' \<le> n + Suc m"
proof (induction m arbitrary: dpt n)
  case 0
  have outside: "\<not> In (Add dpt dir) (bounds img)"
    using 0(3) by (simp add: AddN_Add [symmetric] AddN_0)
  show ?case
    by (subst findBorderLoop.simps)
      (simp add: scanLine_total [OF scan_directions [OF 0(1)]] outside)
next
  case (Suc m)
  have inside: "In (Add dpt dir) (bounds img)"
    using Suc.prems(2) [of 1] by (simp add: AddN_Add [symmetric] AddN_0)
  have "\<exists>p n'. findBorderLoop img dir (Add dpt dir) (Suc n) = Some (p, n') \<and> n' \<le> Suc n + Suc m"
    using Suc.prems by (intro Suc.IH) (simp_all add: AddN_Add)
  then show ?case
    by (subst findBorderLoop.simps)
      (auto simp: scanLine_total [OF scan_directions [OF Suc.prems(1)]] inside)
qed

lemma avgHashLoop_terminates:
  "dir \<in> directions \<Longrightarrow>
   (\<And>k. 1 \<le> k \<Longrightarrow> k < Suc m \<Longrightarrow> In (AddN dpt dir k) (bounds img)) \<Longrightarrow>
   \<not> In (AddN dpt dir (Suc m)) (bounds img) \<Longrightarrow>
   \<exists>r. avgHashLoop img dir pa pc dpt n = Some r \<and> (\<forall>p n'. r = Inr (p, n') \<longrightarrow> n' \<le> n + Suc m)"
proof (induction m arbitrary: dpt n pa pc)
  case 0
  have outside: "\<not> In (Add dpt dir) (bounds img)"
    using 0(3) by (simp add: AddN_Add [symmetric] AddN_0)
  obtain r where r: "lineAverageHash img dpt (Pt (Y dir) (X dir)) = Some r"
    using lineAverageHash_total [OF scan_directions [OF 0(1)]] by blast
  show ?case
    by (subst avgHashLoop.simps) (auto simp: r outside split: sum.splits)
next
  case (Suc m)
  have inside: "In (Add dpt dir) (bounds img)"
    using Suc.prems(2) [of 1] by (simp add: AddN_Add [symmetric] AddN_0)
  obtain r where r: "lineAverageHash img dpt (Pt (Y dir) (X dir)) = Some r"
    using lineAverageHash_total [OF scan_directions [OF Suc.prems(1)]] by blast
  have "\<exists>r. avgHashLoop img dir pa' pc' (Add dpt dir) (Suc n) = Some r \<and>
          (\<forall>p n'. r = Inr (p, n') \<longrightarrow> n' \<le> Suc n + Suc m)" for pa' pc'
    using Suc.prems by (intro Suc.IH) (simp_all add: AddN_Add)
  then show ?case
    by (subst avgHashLoop.simps) (auto simp: r inside split: sum.splits)
qed

lemma avgHashLoop64_terminates:
  "dir \<in> directions \<Longrightarrow>
   (\<And>k. 1 \<le> k \<Longrightarrow> k < Suc m \<Longrightarrow> In (AddN dpt dir k) (bounds img)) \<Longrightarrow>
   \<not> In (AddN dpt dir (Suc m)) (bounds img) \<Longrightarrow>
   \<exists>r. avgHashLoop64 img rgbimg dir prev dpt n = Some r \<and>
       (\<forall>p n'. r = Inr (p, n') \<longrightarrow> n' \<le> n + Suc m)"
proof (induction m arbitrary: dpt n prev)
  case 0
  have outside: "\<not> In (Add dpt dir) (bounds img)"
    using 0(3) by (simp add: AddN_Add [symmetric] AddN_0)
  obtain r where r: "lineAverageHash64 rgbimg dpt (Pt (Y dir) (X dir)) = Some r"
    using lineAverageHash64_total [OF scan_directions [OF 0(1)]] by blast
  show ?case
    by (subst avgHashLoop64.simps) (auto simp: r outside split: sum.splits)
next
  case (Suc m)
  have inside: "In (Add dpt dir) (bounds img)"
    using Suc.prems(2) [of 1] by (simp add: AddN_Add [symmetric] AddN_0)
  obtain r where r: "lineAverageHash64 rgbimg dpt (Pt (Y dir) (X dir)) = Some r"
    using lineAverageHash64_total [OF scan_directions [OF Suc.prems(1)]] by blast
  have "\<exists>r. avgHashLoop64 img rgbimg dir prev' (Add dpt dir) (Suc n) = Some r \<and>
          (\<forall>p n'. r = Inr (p, n') \<longrightarrow> n' \<le> Suc n + Suc m)" for prev'
    using Suc.prems by (intro Suc.IH) (simp_all add: AddN_Add)
  then show ?case
    by (subst avgHashLoop64.simps) (auto simp: r inside split: sum.splits)
qed

lemma numLines_pos_not_Empty: "0 < numLines b dir \<Longrightarrow> \<not> Empty b"
  by (auto simp: numLines_def split: if_splits)

lemma findBorderLoop_from_corner:
  assumes dir: "dir \<in> directions"
  shows "\<exists>p n. findBorderLoop img dir (pointInScanCorner (bounds img) dir) 0 = Some (p, n) \<and>
               n \<le> max 1 (numLines (bounds img) dir)"
proof -
  let ?c = "pointInScanCorner (bounds img) dir"
  let ?L = "numLines (bounds img) dir"
  have "\<exists>p n'. findBorderLoop img dir ?c 0 = Some (p, n') \<and> n' \<le> 0 + Suc (?L - 1)"
  proof (rule findBorderLoop_terminates [OF dir])
    fix k assume "1 \<le> k" "k < Suc (?L - 1)"
    then have "k < ?L" by simp
    then show "In (AddN ?c dir k) (bounds img)"
      using corner_inside [OF dir _ \<open>k < ?L\<close>] numLines_pos_not_Empty [of "bounds img" dir]
      by simp
  next
    show "\<not> In (AddN ?c dir (Suc (?L - 1))) (bounds img)"
      by (rule corner_beyond [OF dir]) simp
  qed
  then show ?thesis
    by (auto simp: max_def)
qed

lemma avgHashLoop_from_corner:
  assumes dir: "dir \<in> directions"
  shows "\<exists>r. avgHashLoop img dir pa pc (Add (pointInScanCorner (bounds img) dir) dir) 0 = Some r \<and>
           (\<forall>p n. r = Inr (p, n) \<longrightarrow> Suc n \<le> max 2 (numLines (bounds img) dir))"
proof -
  let ?c = "pointInScanCorner (bounds img) dir"
  let ?L = "numLines (bounds img) dir"
  have "\<exists>r. avgHashLoop img dir pa pc (Add ?c dir) 0 = Some r \<and>
          (\<forall>p n'. r = Inr (p, n') \<longrightarrow> n' \<le> 0 + Suc (?L - 2))"
  proof (rule avgHashLoop_terminates [OF dir])
    fix k assume "1 \<le> k" "k < Suc (?L - 2)"
    then have "Suc k < ?L" by simp
    then show "In (AddN (Add ?c dir) dir k) (bounds img)"
      using corner_inside [OF dir _ \<open>Suc k < ?L\<close>] numLines_pos_not_Empty [of "bounds img" dir]
      by (simp add: AddN_Add)
  next
    show "\<not> In (AddN (Add ?c dir) dir (Suc (?L - 2))) (bounds img)"
      unfolding AddN_Add by (rule corner_beyond [OF dir]) simp
  qed
  then show ?thesis
    by (auto simp: max_def)
qed

lemma avgHashLoop64_from_corner:
  assumes dir: "dir \<in> directions"
  shows "\<exists>r. avgHashLoop64 img rgbimg dir prev (Add (pointInScanCorner (bounds img) dir) dir) 0 = Some r \<and>
           (\<forall>p n. r = Inr (p, n) \<longrightarrow> Suc n \<le> max 2 (numLines (bounds img) dir))"
proof -
  let ?c = "pointInScanCorner (bounds img) dir"
  let ?L = "numLines (bounds img) dir"
  have "\<exists>r. avgHashLoop64 img rgbimg dir prev (Add ?c dir) 0 = Some r \<and>
          (\<forall>p n'. r = Inr (p, n') \<longrightarrow> n' \<le> 0 + Suc (?L - 2))"
  proof (rule avgHashLoop64_terminates [OF dir])
    fix k assume "1 \<le> k" "k < Suc (?L - 2)"
    then have "Suc k < ?L" by simp
    then show "In (AddN (Add ?c dir) dir k) (bounds img)"
      using corner_inside [OF dir _ \<open>Suc k < ?L\<close>] numLines_pos_not_Empty [of "bounds img" dir]
      by (simp add: AddN_Add)
  next
    show "\<not> In (AddN (Add ?c dir) dir (Suc (?L - 2))) (bounds img)"
      unfolding AddN_Add by (rule corner_beyond [OF dir]) simp
  qed
  then show ?thesis
    by (auto simp: max_def)
qed

lemma findBorder_total: "dir \<in> directions \<Longrightarrow> \<exists>p. findBorder img dir = Some p"
  using findBorderLoop_from_corner [of dir img] by (auto simp: findBorder_def)

lemma findBorderUsingAvgHash_total:
  assumes "dir \<in> directions"
  shows "\<exists>r. findBorderUsingAvgHash img dir = Some r"
proof -
  obtain r where r: "lineAverageHash img (pointInScanCorner (bounds img) dir) (Pt (Y dir) (X dir)) = Some r"
    using lineAverageHash_total [OF scan_directions [OF assms]] by blast
  show ?thesis
  proof (cases r)
    case (Inl e)
    then show ?thesis by (simp add: findBorderUsingAvgHash_def r)
  next
    case (Inr hs)
    obtain q where "avgHashLoop img dir (fst hs) (snd hs)
        (Add (pointInScanCorner (bounds img) dir) dir) 0 = Some q"
      using avgHashLoop_from_corner [OF assms] by blast
    then show ?thesis
      by (cases hs; cases q) (auto simp: findBorderUsingAvgHash_def r Inr)
  qed
qed

lemma findBorderUsingAvgHash64_total:
  assumes "dir \<in> directions"
  shows "\<exists>r. findBorderUsingAvgHash64 img dir = Some r"
proof -
  let ?rgb = "if isRGBA64Image img then Some img else None"
  obtain r where r: "lineAverageHash64 ?rgb (pointInScanCorner (bounds img) dir) (Pt (Y dir) (X dir)) = Some r"
    using lineAverageHash64_total [OF scan_directions [OF assms]] by blast
  show ?thesis
  proof (cases r)
    case (Inl e)
    then show ?thesis by (simp add: findBorderUsingAvgHash64_def r)
  next
    case (Inr hs)
    obtain q where "avgHashLoop64 img ?rgb dir hs
        (Add (pointInScanCorner (bounds img) dir) dir) 0 = Some q"
      using avgHashLoop64_from_corner [OF assms] by blast
    then show ?thesis
      by (cases q) (auto simp: findBorderUsingAvgHash64_def r Inr)
  qed
qed

lemma four_directions:
  "Pt 1 0 \<in> directions" "Pt (- 1) 0 \<in> directions" "Pt 0 1 \<in> directions" "Pt 0 (- 1) \<in> directions"
  by (simp_all add: directions_def)

lemma andThen_total:
  "\<exists>r. m = Some r \<Longrightarrow> (\<And>x. \<exists>r. f x = Some r) \<Longrightarrow> \<exists>r. andThen m f = Some r"
  by (auto simp: andThen_def split: sum.splits)

lemma Bounds_total: "\<exists>r. Bounds img = Some r"
proof -
  obtain l r t b where "findBorder img (Pt 1 0) = Some l" "findBorder img (Pt (- 1) 0) = Some r"
    "findBorder img (Pt 0 1) = Some t" "findBorder img (Pt 0 (- 1)) = Some b"
    using four_directions [THEN findBorder_total, of img] by blast
  then show ?thesis by (simp add: Bounds_def)
qed

lemma BoundsHash_total: "\<exists>r. BoundsHash img = Some r"
  unfolding BoundsHash_def
  by (intro andThen_total findBorderUsingAvgHash_total four_directions) simp

lemma BoundsHash64_total: "\<exists>r. BoundsHash64 img = Some r"
  unfolding BoundsHash64_def
  by (intro andThen_total findBorderUsingAvgHash64_total four_directions) simp

lemma Auto_total: "\<exists>r. Auto img = Some r" "\<exists>r. Auto64 img = Some r"
  unfolding Auto_def Auto64_def Crop_shape
  by (intro andThen_total BoundsHash_total BoundsHash64_total, simp)+

text \<open>
  C9. For every raster, \<^verbatim>\<open>Bounds\<close>, \<^verbatim>\<open>BoundsHash\<close> and \<^verbatim>\<open>Auto\<close> return (with a result or,
  for the hash variants, with a panic), in both profiles. Each directional scan makes at
  most one pass over the lines of the raster: the loop of \<^verbatim>\<open>findBorder\<close> scans at most as
  many lines as the raster has in that direction (one for an empty raster), and the loop
  of \<^verbatim>\<open>findBorderUsingAvgHash\<close>, which hashes one line before it starts, brings the lines
  hashed to at most that number (two for a raster of a single line or none). Each line
  is itself one walk over the pixels from its start to the edge of the raster.
\<close>

theorem scans_terminate:
  assumes "dir \<in> directions"
  shows "(\<exists>r. Bounds img = Some r) \<and> (\<exists>r. BoundsHash img = Some r) \<and> (\<exists>r. Auto img = Some r) \<and>
    (\<exists>r. BoundsHash64 img = Some r) \<and> (\<exists>r. Auto64 img = Some r) \<and>
    (\<exists>p n. findBorderLoop img dir (pointInScanCorner (bounds img) dir) 0 = Some (p, n) \<and>
            n \<le> max 1 (numLines (bounds img) dir)) \<and>
    (\<exists>r. avgHashLoop img dir pa pc (Add (pointInScanCorner (bounds img) dir) dir) 0 = Some r \<and>
         (\<forall>p n. r = Inr (p, n) \<longrightarrow> Suc n \<le> max 2 (numLines (bounds img) dir))) \<and>
    (\<exists>r. avgHashLoop64 img rgbimg dir prev (Add (pointInScanCorner (bounds img) dir) dir) 0 = Some r \<and>
         (\<forall>p n. r = Inr (p, n) \<longrightarrow> Suc n \<le> max 2 (numLines (bounds img) dir))) \<and>
    scanLineForNonWhitespace img pt (Pt (Y dir) (X dir)) =
      Some (list_ex (\<lambda>g. unat g \<le> grayDarknessLimit)
              (pixelsFrom img pt (Pt (Y dir) (X dir))
                 (runLength (bounds img) pt (Pt (Y dir) (X dir))))) \<and>
    lineLoop img (Pt (Y dir) (X dir)) w pt s =
      Some (lineFold w (pixelsFrom img pt (Pt (Y dir) (X dir))
                          (runLength (bounds img) pt (Pt (Y dir) (X dir)))) s) \<and>
    lineLoop64 img (Pt (Y dir) (X dir)) w pt s64 =
      Some (lineFold64 w (pixelsFrom img pt (Pt (Y dir) (X dir))
                            (runLength (bounds img) pt (Pt (Y dir) (X dir)))) s64)"
  using Bounds_total BoundsHash_total BoundsHash64_total Auto_total
    findBorderLoop_from_corner [OF assms] avgHashLoop_from_corner [OF assms]
    avgHashLoop64_from_corner [OF assms]
    scanLine_total [OF scan_directions [OF assms]]
    lineLoop_total [OF scan_directions [OF assms]]
    lineLoop64_total [OF scan_directions [OF assms]]
  by (intro conjI) blast+

text \<open>
  The scans of the 3 x 3 raster return, the rightward naive scan after at most its 3
  columns.
\<close>

theorem scans_terminate_witness:
  "Pt 1 0 \<in> directions \<and>
   (\<exists>r. Bounds dot3 = Some r) \<and> (\<exists>r. BoundsHash dot3 = Some r) \<and> (\<exists>r. Auto dot3 = Some r) \<and>
   (\<exists>r. BoundsHash64 dot3 = Some r) \<and> (\<exists>r. Auto64 dot3 = Some r) \<and>
   (\<exists>p n. findBorderLoop dot3 (Pt 1 0) (Pt 0 0) 0 = Some (p, n) \<and> n \<le> 3)"
proof -
  have d: "Pt 1 0 \<in> directions"
    by (simp add: directions_def)
  have "pointInScanCorner (bounds dot3) (Pt 1 0) = Pt 0 0" "numLines (bounds dot3) (Pt 1 0) = 3"
    by (simp_all add: dot3_def pointInScanCorner_def numLines_def Empty_def Dx_def)
  then show ?thesis
    using scans_terminate [OF d, of dot3] d by simp
qed

subsection \<open>Window size and the bits of a line hash (C10)\<close>

lemma smod_nonneg: "0 \<le> i \<Longrightarrow> i smod w = i mod \<bar>w\<bar>" for i w :: int
  by (simp add: signed_modulo_int_def sgn_if)

lemma sdiv_pos: "0 \<le> i \<Longrightarrow> 0 < w \<Longrightarrow> i sdiv w = i div w" for i w :: int
  by (simp add: signed_divide_int_def sgn_if)

lemma window_closes_pos:
  "0 \<le> i \<Longrightarrow> w \<noteq> 0 \<Longrightarrow> i smod w = w - 1 \<Longrightarrow> 0 < w" for i w :: int
proof -
  assume a: "0 \<le> i" "w \<noteq> 0" "i smod w = w - 1"
  have "0 \<le> i mod \<bar>w\<bar>"
    using a(2) by simp
  moreover have "i mod \<bar>w\<bar> = w - 1"
    using a by (simp add: smod_nonneg)
  ultimately show "0 < w"
    by linarith
qed

lemma window_closes_index:
  "0 \<le> i \<Longrightarrow> w \<noteq> 0 \<Longrightarrow> i smod w = w - 1 \<Longrightarrow> 0 \<le> i sdiv w \<and> (i sdiv w + 1) * w = i + 1"
  for i w :: int
proof -
  assume a: "0 \<le> i" "w \<noteq> 0" "i smod w = w - 1"
  then have w: "0 < w" by (rule window_closes_pos)
  have "i sdiv w * w + i smod w = i"
    by (rule sdiv_mult_smod_eq)
  then have "(i sdiv w + 1) * w = i + 1"
    using a(3) by (simp add: algebra_simps)
  moreover have "0 \<le> i sdiv w"
    using a(1) w by (simp add: sdiv_pos pos_imp_zdiv_nonneg_iff)
  ultimately show ?thesis by simp
qed

lemma bit_setBit32:
  "setBit32 a pos = Inr a' \<Longrightarrow> bit a' n \<Longrightarrow> bit a n \<or> int n = pos"
  by (auto simp: setBit32_def bit_or_iff bit_push_bit_iff bit_1_iff bit_exp_iff split: if_splits)

lemma bit_setBit64:
  "setBit64 a pos = Inr a' \<Longrightarrow> bit a' n \<Longrightarrow> bit a n \<or> int n = pos"
  by (auto simp: setBit64_def bit_or_iff bit_push_bit_iff bit_1_iff bit_exp_iff split: if_splits)

lemma setBit32_ok: "0 \<le> pos \<Longrightarrow> \<exists>a'. setBit32 a pos = Inr a'"
  by (simp add: setBit32_def)

lemma setBit64_ok: "0 \<le> pos \<Longrightarrow> \<exists>a'. setBit64 a pos = Inr a'"
  by (simp add: setBit64_def)

lemma closeWindow_ok:
  assumes "w \<noteq> 0" "0 \<le> idx s" "bitsBelow w s (idx s)"
  shows "\<exists>s'. closeWindow w s = Inr s' \<and> idx s' = idx s \<and> bitsBelow w s' (idx s + 1)"
proof (cases "idx s smod w = w - 1")
  case False
  then show ?thesis
    using assms by (auto simp: closeWindow_def bitsBelow_def) 
next
  case True
  from window_closes_index [OF assms(2,1) True] window_closes_pos [OF assms(2,1) True]
  have pos: "0 \<le> idx s sdiv w" and eq: "(idx s sdiv w + 1) * w = idx s + 1" and w: "0 < w"
    by simp_all
  obtain a' where a': "setBit32 (avgHash s) (idx s sdiv w) = Inr a'"
    using setBit32_ok [OF pos] by blast
  obtain h' where h': "setBit32 (highContrastHash s) (idx s sdiv w) = Inr h'"
    using setBit32_ok [OF pos] by blast
  have old: "bit (avgHash s) n \<or> bit (highContrastHash s) n \<Longrightarrow> (int n + 1) * w \<le> idx s + 1" for n
    using assms(3) by (fastforce simp: bitsBelow_def)
  have new_a: "bit a' n \<Longrightarrow> (int n + 1) * w \<le> idx s + 1" for n
    using bit_setBit32 [OF a', of n] old [of n] eq by auto
  have new_h: "bit h' n \<Longrightarrow> (int n + 1) * w \<le> idx s + 1" for n
    using bit_setBit32 [OF h', of n] old [of n] eq by auto
  show ?thesis
    using assms(1) True a' h' w old new_a new_h
    by (auto simp: closeWindow_def bitsBelow_def)
qed

lemma lineFold_ok:
  "w \<noteq> 0 \<Longrightarrow> 0 \<le> idx s \<Longrightarrow> bitsBelow w s (idx s) \<Longrightarrow>
   \<exists>s'. lineFold w gs s = Inr s' \<and> idx s' = idx s + int (length gs) \<and> bitsBelow w s' (idx s')"
proof (induction gs arbitrary: s)
  case Nil
  then show ?case by simp
next
  case (Cons g gs)
  obtain s1 where s1: "closeWindow w s = Inr s1" "idx s1 = idx s" "bitsBelow w s1 (idx s + 1)"
    using closeWindow_ok [OF Cons.prems] by blast
  have "\<exists>s'. lineFold w gs (addPixel g s1) = Inr s' \<and>
          idx s' = idx (addPixel g s1) + int (length gs) \<and> bitsBelow w s' (idx s')"
    using Cons.prems s1 by (intro Cons.IH) (simp_all add: addPixel_def bitsBelow_def)
  then show ?case
    using s1 by (auto simp: addPixel_def)
qed

lemma closeWindow64_ok:
  assumes "w \<noteq> 0" "0 \<le> idx64 s" "bitsBelow64 w s (idx64 s)"
  shows "\<exists>s'. closeWindow64 w s = Inr s' \<and> idx64 s' = idx64 s \<and> bitsBelow64 w s' (idx64 s + 1)"
proof (cases "idx64 s smod w = w - 1")
  case False
  then show ?thesis
    using assms by (auto simp: closeWindow64_def bitsBelow64_def)
next
  case True
  from window_closes_index [OF assms(2,1) True] window_closes_pos [OF assms(2,1) True]
  have pos: "0 \<le> idx64 s sdiv w" and eq: "(idx64 s sdiv w + 1) * w = idx64 s + 1" and w: "0 < w"
    by simp_all
  obtain h' where h': "setBit64 (hash64 s) (idx64 s sdiv w) = Inr h'"
    using setBit64_ok [OF pos] by blast
  have old: "bit (hash64 s) n \<Longrightarrow> (int n + 1) * w \<le> idx64 s + 1" for n
    using assms(3) by (fastforce simp: bitsBelow64_def)
  have new_h: "bit h' n \<Longrightarrow> (int n + 1) * w \<le> idx64 s + 1" for n
    using bit_setBit64 [OF h', of n] old [of n] eq by auto
  show ?thesis
    using assms(1) True h' w old new_h
    by (auto simp: closeWindow64_def bitsBelow64_def)
qed

lemma lineFold64_ok:
  "w \<noteq> 0 \<Longrightarrow> 0 \<le> idx64 s \<Longrightarrow> bitsBelow64 w s (idx64 s) \<Longrightarrow>
   \<exists>s'. lineFold64 w gs s = Inr s' \<and> idx64 s' = idx64 s + int (length gs) \<and>
        bitsBelow64 w s' (idx64 s')"
proof (induction gs arbitrary: s)
  case Nil
  then show ?case by simp
next
  case (Cons g gs)
  obtain s1 where s1: "closeWindow64 w s = Inr s1" "idx64 s1 = idx64 s" "bitsBelow64 w s1 (idx64 s + 1)"
    using closeWindow64_ok [OF Cons.prems] by blast
  have "\<exists>s'. lineFold64 w gs (addPixel64 g s1) = Inr s' \<and>
          idx64 s' = idx64 (addPixel64 g s1) + int (length gs) \<and> bitsBelow64 w s' (idx64 s')"
    using Cons.prems s1 by (intro Cons.IH) (simp_all add: addPixel64_def bitsBelow64_def)
  then show ?case
    using s1 by (auto simp: addPixel64_def)
qed

















subsection \<open>Rasters of a single colour (C4)\<close>

lemma uniform_iff:
  "uniform img g \<longleftrightarrow> (\<forall>x y. In (Pt x y) (bounds img) \<longrightarrow> GrayAt img x y = g)"
  by (auto simp: uniform_def list_all_iff In_def)

lemma uniform_inside:
  "uniform img g \<Longrightarrow> In p (bounds img) \<Longrightarrow> GrayAt img (X p) (Y p) = g"
  by (cases p) (simp add: uniform_iff)

lemma pixelsFrom_uniform:
  "uniform img g \<Longrightarrow> d \<in> directions \<Longrightarrow>
   pixelsFrom img p d (runLength (bounds img) p d) = replicate (runLength (bounds img) p d) g"
  by (simp add: list_eq_iff_nth_eq pixelsFrom_def uniform_inside runLength_inside)

lemma line_length_corner:
  assumes "dir \<in> directions" "\<not> Empty b" "k < numLines b dir"
  shows "runLength b (AddN (pointInScanCorner b dir) dir k) (Pt (Y dir) (X dir)) =
     (if X dir \<noteq> 0 then nat (Dy b) else nat (Dx b))"
proof -
  have inside: "In (AddN (pointInScanCorner b dir) dir k) b"
    using assms by (rule corner_inside)
  consider "dir = Pt 1 0" | "dir = Pt (- 1) 0" | "dir = Pt 0 1" | "dir = Pt 0 (- 1)"
    using assms(1) by (auto simp: directions_def)
  then show ?thesis
  proof cases
    case 1
    then show ?thesis
      using inside by (simp add: runLength_def AddN_def pointInScanCorner_def Dy_def)
  next
    case 2
    then show ?thesis
      using inside by (simp add: runLength_def AddN_def pointInScanCorner_def Sub_def Dy_def)
  next
    case 3
    then show ?thesis
      using inside by (simp add: runLength_def AddN_def pointInScanCorner_def Dx_def)
  next
    case 4
    then show ?thesis
      using inside by (simp add: runLength_def AddN_def pointInScanCorner_def Sub_def Dx_def)
  qed
qed

text \<open>
  Every line of a raster of a single colour has the same hashes: those of as many
  pixels of that colour as the line is long.
\<close>

lemma pixelsFrom_uniform_line:
  assumes "uniform img g" "dir \<in> directions" "\<not> Empty (bounds img)"
    "k < numLines (bounds img) dir"
  shows "pixelsFrom img (AddN (pointInScanCorner (bounds img) dir) dir k) (Pt (Y dir) (X dir))
           (runLength (bounds img) (AddN (pointInScanCorner (bounds img) dir) dir k)
              (Pt (Y dir) (X dir)))
       = replicate (if X dir \<noteq> 0 then nat (Dy (bounds img)) else nat (Dx (bounds img))) g"
  using pixelsFrom_uniform [OF assms(1) scan_directions [OF assms(2)],
      of "AddN (pointInScanCorner (bounds img) dir) dir k"]
  by (simp only: line_length_corner [OF assms(2,3,4)])

lemma lineAverageHash_uniform_line:
  assumes "uniform img g" "dir \<in> directions" "\<not> Empty (bounds img)"
    "k < numLines (bounds img) dir"
  shows "lineAverageHash img (AddN (pointInScanCorner (bounds img) dir) dir k) (Pt (Y dir) (X dir))
       = Some (uniformLineHash
           ((if Y dir \<noteq> 0 then X (Max_r (bounds img)) else Y (Max_r (bounds img))) sdiv 32)
           (if X dir \<noteq> 0 then nat (Dy (bounds img)) else nat (Dx (bounds img))) g)"
  unfolding lineAverageHash_def Let_def lineLoop_total [OF scan_directions [OF assms(2)]]
    pixelsFrom_uniform_line [OF assms] uniformLineHash_def point.sel
  by (simp split: sum.splits)

lemma lineAverageHash64_uniform_line:
  assumes "uniform img g" "dir \<in> directions" "\<not> Empty (bounds img)"
    "k < numLines (bounds img) dir"
  shows "lineAverageHash64 (Some img) (AddN (pointInScanCorner (bounds img) dir) dir k) (Pt (Y dir) (X dir))
       = Some (uniformLineHash64
           ((if Y dir \<noteq> 0 then X (Max_r (bounds img)) else Y (Max_r (bounds img))) sdiv 64)
           (if X dir \<noteq> 0 then nat (Dy (bounds img)) else nat (Dx (bounds img))) g)"
  unfolding lineAverageHash64_def option.case Let_def
    lineLoop64_total [OF scan_directions [OF assms(2)]]
    pixelsFrom_uniform_line [OF assms] uniformLineHash64_def point.sel
  by (simp split: sum.splits)

text \<open>A line that starts outside the bounds has no pixel, and its hashes are zero.\<close>

lemma lineAverageHash_outside:
  "\<not> In p (bounds img) \<Longrightarrow> lineAverageHash img p scan = Some (Inr (0, 0))"
  unfolding lineAverageHash_def Let_def
  by (subst lineLoop.simps) (simp add: initialHashState_def)

lemma lineAverageHash64_outside:
  "\<not> In p (bounds img) \<Longrightarrow> lineAverageHash64 (Some img) p scan = Some (Inr 0)"
  unfolding lineAverageHash64_def Let_def option.case
  by (subst lineLoop64.simps) (simp add: initialHashState64_def)

lemma uniformLineHash_ok: "w \<noteq> 0 \<Longrightarrow> \<exists>a h. uniformLineHash w n g = Inr (a, h)"
proof -
  assume w: "w \<noteq> 0"
  have "\<exists>s'. lineFold w (replicate n g) initialHashState = Inr s' \<and>
      idx s' = idx initialHashState + int (length (replicate n g)) \<and> bitsBelow w s' (idx s')"
    by (rule lineFold_ok [OF w]) (simp_all add: initialHashState_def bitsBelow_def)
  then show ?thesis
    by (auto simp: uniformLineHash_def)
qed

lemma uniformLineHash64_ok: "w \<noteq> 0 \<Longrightarrow> \<exists>h. uniformLineHash64 w n g = Inr h"
proof -
  assume w: "w \<noteq> 0"
  have "\<exists>s'. lineFold64 w (replicate n g) initialHashState64 = Inr s' \<and>
      idx64 s' = idx64 initialHashState64 + int (length (replicate n g)) \<and>
      bitsBelow64 w s' (idx64 s')"
    by (rule lineFold64_ok [OF w]) (simp_all add: initialHashState64_def bitsBelow64_def)
  then show ?thesis
    by (auto simp: uniformLineHash64_def)
qed

lemma hashesMatch_same: "hashesMatch a h a h"
  by (simp add: hashesMatch_def OnesCount32_def minDistinctBitsBetweenLines_def
      maxDistinctBitsBetweenLines_def del: upt.simps)

lemma hashesDiffer64_same: "\<not> hashesDiffer64 h h"
  by (simp add: hashesDiffer64_def OnesCount64_def minDistinctBitsBetweenLines_def del: upt.simps)

lemma Sub_Add: "Sub (Add p d) d = p"
  by (simp add: Sub_def Add_def)

lemma numLines_pos:
  "dir \<in> directions \<Longrightarrow> \<not> Empty b \<Longrightarrow> 0 < numLines b dir"
  by (auto simp: numLines_def Empty_def Dx_def Dy_def)

text \<open>
  The hash scan of a raster of a single colour. With two lines or more every line
  matches the one before, and the scan falls back to its corner. With a single line,
  the line after it lies outside the bounds and hashes to zero: the scan falls back to
  its corner when the line's hashes match zero, and stops one step beyond the line
  otherwise.
\<close>

lemma findBorderUsingAvgHash_uniform:
  assumes u: "uniform img g" and dir: "dir \<in> directions" and ne: "\<not> Empty (bounds img)"
    and hash: "uniformLineHash
           ((if Y dir \<noteq> 0 then X (Max_r (bounds img)) else Y (Max_r (bounds img))) sdiv 32)
           (if X dir \<noteq> 0 then nat (Dy (bounds img)) else nat (Dx (bounds img))) g = Inr (a, h)"
  shows "findBorderUsingAvgHash img dir =
    Some (Inr (if 2 \<le> numLines (bounds img) dir \<or> hashesMatch a h 0 0
               then (if X dir < 0 \<or> Y dir < 0 then Sub (pointInScanCorner (bounds img) dir) dir
                     else pointInScanCorner (bounds img) dir)
               else (if X dir < 0 \<or> Y dir < 0 then pointInScanCorner (bounds img) dir
                     else Add (pointInScanCorner (bounds img) dir) dir)))"
proof -
  let ?c = "pointInScanCorner (bounds img) dir"
  let ?L = "numLines (bounds img) dir"
  have line: "lineAverageHash img (AddN ?c dir k) (Pt (Y dir) (X dir)) = Some (Inr (a, h))"
    if "k < ?L" for k
    using lineAverageHash_uniform_line [OF u dir ne that] hash by simp
  have pos: "0 < ?L"
    using dir ne by (rule numLines_pos)
  have first: "lineAverageHash img ?c (Pt (Y dir) (X dir)) = Some (Inr (a, h))"
    using line [OF pos] by (simp add: AddN_0)
  show ?thesis
  proof (cases "2 \<le> ?L")
    case True
    then obtain m where m: "?L = Suc (Suc m)"
      by (auto simp: le_iff_add)
    have "avgHashLoop img dir ((\<lambda>_. a) 0) ((\<lambda>_. h) 0) (Add ?c dir) 0 =
        Some (Inr (?c, 0 + Suc m))"
    proof (rule avgHashLoop_exhausted)
      fix k assume "k < Suc m"
      then show "lineAverageHash img (AddN (Add ?c dir) dir k) (Pt (Y dir) (X dir)) = Some (Inr (a, h))"
        using line [of "Suc k"] m by (simp add: AddN_Add)
    next
      fix k assume "k < Suc m"
      show "hashesMatch a h a h" by (rule hashesMatch_same)
    next
      fix k assume "1 \<le> k" "k < Suc m"
      then show "In (AddN (Add ?c dir) dir k) (bounds img)"
        using corner_inside [OF dir ne, of "Suc k"] m by (simp add: AddN_Add)
    next
      show "\<not> In (AddN (Add ?c dir) dir (Suc m)) (bounds img)"
        using corner_beyond [OF dir, of "bounds img" "Suc (Suc m)"] m by (simp add: AddN_Add)
    qed
    then show ?thesis
      using True by (simp add: findBorderUsingAvgHash_def first)
  next
    case False
    then have L: "?L = 1"
      using pos by simp
    have out1: "\<not> In (Add ?c dir) (bounds img)"
      using corner_beyond [OF dir, of "bounds img" 1] L by (simp add: AddN_Add [symmetric] AddN_0)
    have second: "lineAverageHash img (Add ?c dir) (Pt (Y dir) (X dir)) = Some (Inr (0, 0))"
      using out1 by (rule lineAverageHash_outside)
    have out2: "\<not> In (Add (Add ?c dir) dir) (bounds img)"
      using corner_beyond [OF dir, of "bounds img" 2] L
      by (simp add: AddN_Add [symmetric] AddN_0 numeral_2_eq_2)
    have "avgHashLoop img dir a h (Add ?c dir) 0 =
        Some (Inr (if hashesMatch a h 0 0 then ?c else Add ?c dir, 1))"
      by (subst avgHashLoop.simps) (simp add: second out2)
    then show ?thesis
      using False by (simp add: findBorderUsingAvgHash_def first Sub_Add)
  qed
qed

lemma findBorderUsingAvgHash64_uniform:
  assumes u: "uniform img g" and dir: "dir \<in> directions" and ne: "\<not> Empty (bounds img)"
    and hash: "uniformLineHash64
           ((if Y dir \<noteq> 0 then X (Max_r (bounds img)) else Y (Max_r (bounds img))) sdiv 64)
           (if X dir \<noteq> 0 then nat (Dy (bounds img)) else nat (Dx (bounds img))) g = Inr h"
    and rgba: "isRGBA64Image img"
  shows "findBorderUsingAvgHash64 img dir =
    Some (Inr (if 2 \<le> numLines (bounds img) dir \<or> \<not> hashesDiffer64 h 0
               then (if X dir < 0 \<or> Y dir < 0 then Sub (pointInScanCorner (bounds img) dir) dir
                     else pointInScanCorner (bounds img) dir)
               else (if X dir < 0 \<or> Y dir < 0 then pointInScanCorner (bounds img) dir
                     else Add (pointInScanCorner (bounds img) dir) dir)))"
proof -
  let ?c = "pointInScanCorner (bounds img) dir"
  let ?L = "numLines (bounds img) dir"
  have line: "lineAverageHash64 (Some img) (AddN ?c dir k) (Pt (Y dir) (X dir)) = Some (Inr h)"
    if "k < ?L" for k
    using lineAverageHash64_uniform_line [OF u dir ne that] hash by simp
  have pos: "0 < ?L"
    using dir ne by (rule numLines_pos)
  have first: "lineAverageHash64 (Some img) ?c (Pt (Y dir) (X dir)) = Some (Inr h)"
    using line [OF pos] by (simp add: AddN_0)
  show ?thesis
  proof (cases "2 \<le> ?L")
    case True
    then obtain m where m: "?L = Suc (Suc m)"
      by (auto simp: le_iff_add)
    have "avgHashLoop64 img (Some img) dir ((\<lambda>_. h) 0) (Add ?c dir) 0 =
        Some (Inr (?c, 0 + Suc m))"
    proof (rule avgHashLoop64_exhausted)
      fix k assume "k < Suc m"
      then show "lineAverageHash64 (Some img) (AddN (Add ?c dir) dir k) (Pt (Y dir) (X dir)) = Some (Inr h)"
        using line [of "Suc k"] m by (simp add: AddN_Add)
    next
      fix k assume "k < Suc m"
      show "\<not> hashesDiffer64 h h" by (rule hashesDiffer64_same)
    next
      fix k assume "1 \<le> k" "k < Suc m"
      then show "In (AddN (Add ?c dir) dir k) (bounds img)"
        using corner_inside [OF dir ne, of "Suc k"] m by (simp add: AddN_Add)
    next
      show "\<not> In (AddN (Add ?c dir) dir (Suc m)) (bounds img)"
        using corner_beyond [OF dir, of "bounds img" "Suc (Suc m)"] m by (simp add: AddN_Add)
    qed
    then show ?thesis
      using True by (simp add: findBorderUsingAvgHash64_def first rgba)
  next
    case False
    then have L: "?L = 1"
      using pos by simp
    have out1: "\<not> In (Add ?c dir) (bounds img)"
      using corner_beyond [OF dir, of "bounds img" 1] L by (simp add: AddN_Add [symmetric] AddN_0)
    have second: "lineAverageHash64 (Some img) (Add ?c dir) (Pt (Y dir) (X dir)) = Some (Inr 0)"
      using out1 by (rule lineAverageHash64_outside)
    have out2: "\<not> In (Add (Add ?c dir) dir) (bounds img)"
      using corner_beyond [OF dir, of "bounds img" 2] L
      by (simp add: AddN_Add [symmetric] AddN_0 numeral_2_eq_2)
    have "avgHashLoop64 img (Some img) dir h (Add ?c dir) 0 =
        Some (Inr (if \<not> hashesDiffer64 h 0 then ?c else Add ?c dir, 1))"
      by (subst avgHashLoop64.simps) (simp add: second out2)
    then show ?thesis
      using False by (simp add: findBorderUsingAvgHash64_def first rgba Sub_Add)
  qed
qed

lemma linePoints_inside:
  "In p b \<Longrightarrow> q \<in> set (linePoints b dir p) \<Longrightarrow> In q b"
  by (auto simp: linePoints_def In_def split: if_splits)

lemma nonBlank_uniform:
  assumes "uniform img g" "In p (bounds img)"
  shows "nonBlank img dir p \<longleftrightarrow> unat g \<le> grayDarknessLimit"
proof -
  have "linePoints (bounds img) dir p \<noteq> []"
    using assms(2) by (simp add: linePoints_def In_def)
  then obtain q where "q \<in> set (linePoints (bounds img) dir p)"
    by (cases "linePoints (bounds img) dir p") auto
  then show ?thesis
    using uniform_inside [OF assms(1) linePoints_inside [OF assms(2)]]
    by (auto simp: nonBlank_def list_ex_iff)
qed

lemma findBorder_uniform:
  assumes u: "uniform img g" and ne: "\<not> Empty (bounds img)" and dir: "dir \<in> directions"
  shows "findBorder img dir =
    Some (if X dir < 0 \<or> Y dir < 0 then Sub (pointInScanCorner (bounds img) dir) dir
          else pointInScanCorner (bounds img) dir)"
proof (cases "unat g \<le> grayDarknessLimit")
  case True
  have pos: "0 < numLines (bounds img) dir"
    using dir ne by (rule numLines_pos)
  show ?thesis
    using findBorder_first_nonBlank [OF dir ne pos] True
      nonBlank_uniform [OF u corner_inside [OF dir ne pos]]
    by (simp add: AddN_0)
next
  case False
  then show ?thesis
    using findBorder_all_blank [OF dir ne]
    by (simp add: nonBlank_uniform [OF u corner_inside [OF dir ne]])
qed

lemma Rect_bounds:
  "\<not> Empty b \<Longrightarrow> Rect (X (Min_r b)) (Y (Min_r b)) (X (Max_r b)) (Y (Max_r b)) = b"
  by (cases b; cases "Min_r b"; cases "Max_r b") (auto simp: Rect_def Empty_def)

text \<open>\<^verbatim>\<open>image.Rect\<close> gives the same rectangle when the two edges of an axis are crossed.\<close>

lemma Rect_crossed:
  assumes "\<not> Empty b"
    and "x0 = X (Min_r b) \<and> x1 = X (Max_r b) \<or> x0 = X (Max_r b) \<and> x1 = X (Min_r b)"
    and "y0 = Y (Min_r b) \<and> y1 = Y (Max_r b) \<or> y0 = Y (Max_r b) \<and> y1 = Y (Min_r b)"
  shows "Rect x0 y0 x1 y1 = b"
  using assms by (cases b; cases "Min_r b"; cases "Max_r b") (auto simp: Rect_def Empty_def)

lemma Bounds_uniform:
  assumes "uniform img g" "\<not> Empty (bounds img)"
  shows "Bounds img = Some (bounds img)"
  using Rect_bounds [OF assms(2)]
  by (simp add: Bounds_def findBorder_uniform [OF assms] four_directions
      pointInScanCorner_def Sub_def)

text \<open>
  The two scans of an axis hash the same lines, so on a raster of a single line in that
  axis they both fall back or both stop beyond the line: the edges are the two bounds
  of the axis, in order or crossed.
\<close>

lemma edges_x_uniform:
  assumes u: "uniform img g" and ne: "\<not> Empty (bounds img)"
    and w: "Y (Max_r (bounds img)) sdiv 32 \<noteq> 0"
  shows "\<exists>l r. findBorderUsingAvgHash img (Pt 1 0) = Some (Inr l) \<and>
               findBorderUsingAvgHash img (Pt (- 1) 0) = Some (Inr r) \<and>
               (X l = X (Min_r (bounds img)) \<and> X r = X (Max_r (bounds img)) \<or>
                X l = X (Max_r (bounds img)) \<and> X r = X (Min_r (bounds img)))"
proof -
  obtain a h where
    hash: "uniformLineHash (Y (Max_r (bounds img)) sdiv 32) (nat (Dy (bounds img))) g = Inr (a, h)"
    using uniformLineHash_ok [OF w] by blast
  have one: "X (Min_r (bounds img)) + 1 = X (Max_r (bounds img))"
    if "\<not> 2 \<le> numLines (bounds img) (Pt 1 0)"
    using that ne by (auto simp: numLines_def Empty_def Dx_def)
  have same: "numLines (bounds img) (Pt (- 1) 0) = numLines (bounds img) (Pt 1 0)"
    by (simp add: numLines_def)
  show ?thesis
    using findBorderUsingAvgHash_uniform [OF u four_directions(1) ne, of a h]
      findBorderUsingAvgHash_uniform [OF u four_directions(2) ne, of a h] hash one
    by (auto simp: same pointInScanCorner_def Sub_def Add_def)
qed

lemma edges_y_uniform:
  assumes u: "uniform img g" and ne: "\<not> Empty (bounds img)"
    and w: "X (Max_r (bounds img)) sdiv 32 \<noteq> 0"
  shows "\<exists>t b. findBorderUsingAvgHash img (Pt 0 1) = Some (Inr t) \<and>
               findBorderUsingAvgHash img (Pt 0 (- 1)) = Some (Inr b) \<and>
               (Y t = Y (Min_r (bounds img)) \<and> Y b = Y (Max_r (bounds img)) \<or>
                Y t = Y (Max_r (bounds img)) \<and> Y b = Y (Min_r (bounds img)))"
proof -
  obtain a h where
    hash: "uniformLineHash (X (Max_r (bounds img)) sdiv 32) (nat (Dx (bounds img))) g = Inr (a, h)"
    using uniformLineHash_ok [OF w] by blast
  have one: "Y (Min_r (bounds img)) + 1 = Y (Max_r (bounds img))"
    if "\<not> 2 \<le> numLines (bounds img) (Pt 0 1)"
    using that ne by (auto simp: numLines_def Empty_def Dy_def)
  have same: "numLines (bounds img) (Pt 0 (- 1)) = numLines (bounds img) (Pt 0 1)"
    by (simp add: numLines_def)
  show ?thesis
    using findBorderUsingAvgHash_uniform [OF u four_directions(3) ne, of a h]
      findBorderUsingAvgHash_uniform [OF u four_directions(4) ne, of a h] hash one
    by (auto simp: same pointInScanCorner_def Sub_def Add_def)
qed

lemma BoundsHash_uniform:
  assumes u: "uniform img g" and ne: "\<not> Empty (bounds img)"
    and w: "X (Max_r (bounds img)) sdiv 32 \<noteq> 0" "Y (Max_r (bounds img)) sdiv 32 \<noteq> 0"
  shows "BoundsHash img = Some (Inr (bounds img))"
proof -
  obtain l r where x: "findBorderUsingAvgHash img (Pt 1 0) = Some (Inr l)"
    "findBorderUsingAvgHash img (Pt (- 1) 0) = Some (Inr r)"
    "X l = X (Min_r (bounds img)) \<and> X r = X (Max_r (bounds img)) \<or>
     X l = X (Max_r (bounds img)) \<and> X r = X (Min_r (bounds img))"
    using edges_x_uniform [OF u ne w(2)] by blast
  obtain t b where y: "findBorderUsingAvgHash img (Pt 0 1) = Some (Inr t)"
    "findBorderUsingAvgHash img (Pt 0 (- 1)) = Some (Inr b)"
    "Y t = Y (Min_r (bounds img)) \<and> Y b = Y (Max_r (bounds img)) \<or>
     Y t = Y (Max_r (bounds img)) \<and> Y b = Y (Min_r (bounds img))"
    using edges_y_uniform [OF u ne w(1)] by blast
  show ?thesis
    using Rect_crossed [OF ne x(3) y(3)]
    by (simp add: BoundsHash_def andThen_def x(1,2) y(1,2))
qed

lemma edges_x_uniform64:
  assumes u: "uniform img g" and ne: "\<not> Empty (bounds img)"
    and w: "Y (Max_r (bounds img)) sdiv 64 \<noteq> 0" and rgba: "isRGBA64Image img"
  shows "\<exists>l r. findBorderUsingAvgHash64 img (Pt 1 0) = Some (Inr l) \<and>
               findBorderUsingAvgHash64 img (Pt (- 1) 0) = Some (Inr r) \<and>
               (X l = X (Min_r (bounds img)) \<and> X r = X (Max_r (bounds img)) \<or>
                X l = X (Max_r (bounds img)) \<and> X r = X (Min_r (bounds img)))"
proof -
  obtain h where
    hash: "uniformLineHash64 (Y (Max_r (bounds img)) sdiv 64) (nat (Dy (bounds img))) g = Inr h"
    using uniformLineHash64_ok [OF w] by blast
  have one: "X (Min_r (bounds img)) + 1 = X (Max_r (bounds img))"
    if "\<not> 2 \<le> numLines (bounds img) (Pt 1 0)"
    using that ne by (auto simp: numLines_def Empty_def Dx_def)
  have same: "numLines (bounds img) (Pt (- 1) 0) = numLines (bounds img) (Pt 1 0)"
    by (simp add: numLines_def)
  show ?thesis
    using findBorderUsingAvgHash64_uniform [OF u four_directions(1) ne _ rgba, of h]
      findBorderUsingAvgHash64_uniform [OF u four_directions(2) ne _ rgba, of h] hash one
    by (auto simp: same pointInScanCorner_def Sub_def Add_def)
qed

lemma edges_y_uniform64:
  assumes u: "uniform img g" and ne: "\<not> Empty (bounds img)"
    and w: "X (Max_r (bounds img)) sdiv 64 \<noteq> 0" and rgba: "isRGBA64Image img"
  shows "\<exists>t b. findBorderUsingAvgHash64 img (Pt 0 1) = Some (Inr t) \<and>
               findBorderUsingAvgHash64 img (Pt 0 (- 1)) = Some (Inr b) \<and>
               (Y t = Y (Min_r (bounds img)) \<and> Y b = Y (Max_r (bounds img)) \<or>
                Y t = Y (Max_r (bounds img)) \<and> Y b = Y (Min_r (bounds img)))"
proof -
  obtain h where
    hash: "uniformLineHash64 (X (Max_r (bounds img)) sdiv 64) (nat (Dx (bounds img))) g = Inr h"
    using uniformLineHash64_ok [OF w] by blast
  have one: "Y (Min_r (bounds img)) + 1 = Y (Max_r (bounds img))"
    if "\<not> 2 \<le> numLines (bounds img) (Pt 0 1)"
    using that ne by (auto simp: numLines_def Empty_def Dy_def)
  have same: "numLines (bounds img) (Pt 0 (- 1)) = numLines (bounds img) (Pt 0 1)"
    by (simp add: numLines_def)
  show ?thesis
    using findBorderUsingAvgHash64_uniform [OF u four_directions(3) ne _ rgba, of h]
      findBorderUsingAvgHash64_uniform [OF u four_directions(4) ne _ rgba, of h] hash one
    by (auto simp: same pointInScanCorner_def Sub_def Add_def)
qed

lemma BoundsHash64_uniform:
  assumes u: "uniform img g" and ne: "\<not> Empty (bounds img)"
    and w: "X (Max_r (bounds img)) sdiv 64 \<noteq> 0" "Y (Max_r (bounds img)) sdiv 64 \<noteq> 0"
    and rgba: "isRGBA64Image img"
  shows "BoundsHash64 img = Some (Inr (bounds img))"
proof -
  obtain l r where x: "findBorderUsingAvgHash64 img (Pt 1 0) = Some (Inr l)"
    "findBorderUsingAvgHash64 img (Pt (- 1) 0) = Some (Inr r)"
    "X l = X (Min_r (bounds img)) \<and> X r = X (Max_r (bounds img)) \<or>
     X l = X (Max_r (bounds img)) \<and> X r = X (Min_r (bounds img))"
    using edges_x_uniform64 [OF u ne w(2) rgba] by blast
  obtain t b where y: "findBorderUsingAvgHash64 img (Pt 0 1) = Some (Inr t)"
    "findBorderUsingAvgHash64 img (Pt 0 (- 1)) = Some (Inr b)"
    "Y t = Y (Min_r (bounds img)) \<and> Y b = Y (Max_r (bounds img)) \<or>
     Y t = Y (Max_r (bounds img)) \<and> Y b = Y (Min_r (bounds img))"
    using edges_y_uniform64 [OF u ne w(1) rgba] by blast
  show ?thesis
    using Rect_crossed [OF ne x(3) y(3)]
    by (simp add: BoundsHash64_def andThen_def x(1,2) y(1,2))
qed

text \<open>
  C4, as the code has it. On a non-empty raster of a single colour the rectangle
  returned is the whole raster, uncropped: by \<^verbatim>\<open>Bounds\<close> always, and by \<^verbatim>\<open>BoundsHash\<close>
  whenever the window size is non-zero in each axis (and, in the simplified profile,
  the raster implements \<^verbatim>\<open>image.RGBA64Image\<close>). Only the pixels inside the bounds need
  to have the colour.
\<close>

theorem uniform_raster_is_not_cropped:
  assumes "uniform img g" and "\<not> Empty (bounds img)"
  shows "Bounds img = Some (bounds img) \<and>
    (X (Max_r (bounds img)) sdiv 32 \<noteq> 0 \<and> Y (Max_r (bounds img)) sdiv 32 \<noteq> 0
       \<longrightarrow> BoundsHash img = Some (Inr (bounds img))) \<and>
    (isRGBA64Image img \<and>
     X (Max_r (bounds img)) sdiv 64 \<noteq> 0 \<and> Y (Max_r (bounds img)) sdiv 64 \<noteq> 0
       \<longrightarrow> BoundsHash64 img = Some (Inr (bounds img)))"
  using Bounds_uniform [OF assms] BoundsHash_uniform [OF assms]
    BoundsHash64_uniform [OF assms]
  by blast

lemma white64_facts:
  "uniform white64 255" "\<not> Empty (bounds white64)"
  "X (Max_r (bounds white64)) = 64" "Y (Max_r (bounds white64)) = 64"
  "bounds white64 = Rectangle (Pt 0 0) (Pt 64 64)"
  by (simp_all add: white64_def uniform_iff Empty_def)

lemma view134_facts:
  "uniform view134 255" "\<not> Empty (bounds view134)"
  "X (Max_r (bounds view134)) = 134" "Y (Max_r (bounds view134)) = 134"
  "bounds view134 = Rectangle (Pt 70 70) (Pt 134 134)" "isRGBA64Image view134"
  by (simp_all add: view134_def uniform_iff Empty_def)

lemma row40_facts:
  "uniform row40 255" "\<not> Empty (bounds row40)"
  "X (Max_r (bounds row40)) = 64" "Y (Max_r (bounds row40)) = 41"
  "bounds row40 = Rectangle (Pt 0 40) (Pt 64 41)"
  by (simp_all add: row40_def uniform_iff Empty_def In_def)

lemma sdiv_values: "(64 :: int) sdiv 32 = 2" "(134 :: int) sdiv 64 = 2" "(41 :: int) sdiv 32 = 1"
  by (simp_all add: signed_divide_int_def)

text \<open>
  Two white rasters and a white row in a black parent, each returned whole.
\<close>

theorem uniform_raster_is_not_cropped_witness:
  "uniform white64 255 \<and> \<not> Empty (bounds white64) \<and>
   Bounds white64 = Some (Rectangle (Pt 0 0) (Pt 64 64)) \<and>
   BoundsHash white64 = Some (Inr (Rectangle (Pt 0 0) (Pt 64 64))) \<and>
   uniform view134 255 \<and> \<not> Empty (bounds view134) \<and> isRGBA64Image view134 \<and>
   BoundsHash64 view134 = Some (Inr (Rectangle (Pt 70 70) (Pt 134 134))) \<and>
   uniform row40 255 \<and> \<not> Empty (bounds row40) \<and>
   Bounds row40 = Some (Rectangle (Pt 0 40) (Pt 64 41)) \<and>
   BoundsHash row40 = Some (Inr (Rectangle (Pt 0 40) (Pt 64 41)))"
  using uniform_raster_is_not_cropped [OF white64_facts(1,2)]
    uniform_raster_is_not_cropped [OF view134_facts(1,2)]
    uniform_raster_is_not_cropped [OF row40_facts(1,2)]
  by (simp add: white64_facts view134_facts row40_facts sdiv_values Empty_def)

text \<open>
  The claim as stated fails: for the white 64 x 64 raster both \<^verbatim>\<open>Bounds\<close> and \<^verbatim>\<open>BoundsHash\<close>
  return the whole raster, a rectangle of 4096 pixels, not one of zero or near-zero
  area.
\<close>

theorem uniform_raster_area_counterexample:
  "uniform white64 255 \<and>
   Bounds white64 = Some (Rectangle (Pt 0 0) (Pt 64 64)) \<and>
   BoundsHash white64 = Some (Inr (Rectangle (Pt 0 0) (Pt 64 64))) \<and>
   Dx (Rectangle (Pt 0 0) (Pt 64 64)) * Dy (Rectangle (Pt 0 0) (Pt 64 64)) = 4096"
  using Bounds_uniform [OF white64_facts(1,2)] BoundsHash_uniform [OF white64_facts(1,2)]
  by (simp add: white64_facts sdiv_values Dx_def Dy_def)

end
